theory Spec2Isabelle
  imports Complex_Main "HOL-Library.Word" "HOL-Library.AList" "HOL-Library.Char_ord"
    "HOL-Library.List_Lexorder" "HOL-Library.Product_Lexorder"
begin

section \<open>Audio sample conversion (playback.ts and capture.ts)\<close>

text \<open>
  JavaScript numbers are IEEE doubles and the audio buffers are \<open>Float32Array\<close>s.  Every
  value that occurs between the two conversions below is a dyadic rational \<open>m / 2 ^ 15\<close>
  with \<open>\<bar>m\<bar> \<le> 2 ^ 15\<close> (lemma \<open>playback_normalize_dyadic\<close>), which both formats hold
  exactly, so the arithmetic is modelled on \<open>rat\<close> without rounding.
\<close>

type_synonym int16 = "16 word"

text \<open>\<open>Math.round\<close>: the nearest integer, ties towards plus infinity.\<close>

definition js_round :: "rat \<Rightarrow> int" where
  "js_round x = \<lfloor>x + 1 / 2\<rfloor>"

text \<open>
  playback.ts, \<open>playChunkImmediately\<close>, the normalization loop:
  \<^verbatim>\<open>const normalized = int16Array[i] / 32768.0;
float32Array[i] = Math.max(-1.0, Math.min(1.0, normalized));\<close>
\<close>

definition playback_normalize :: "int16 \<Rightarrow> rat" where
  "playback_normalize v =
     (let normalized = of_int (sint v) / 32768
      in max (- 1) (min 1 normalized))"

text \<open>
  capture.ts, \<open>onaudioprocess\<close>:
  \<^verbatim>\<open>const sample = Math.max(-1, Math.min(1, inputData[i]));
pcmData[i] = Math.round(sample * 32768.0);
pcmData[i] = Math.max(-32768, Math.min(32767, pcmData[i]));\<close>
  \<open>pcmData\<close> is an \<open>Int16Array\<close>: each store wraps modulo \<open>2 ^ 16\<close>, and the second
  statement reads the wrapped element back.
\<close>

definition capture_convert :: "rat \<Rightarrow> int16" where
  "capture_convert x =
     (let sample = max (- 1) (min 1 x);
          pcm0 = (word_of_int (js_round (sample * 32768)) :: int16);
          pcm1 = (word_of_int (max (- 32768) (min 32767 (sint pcm0))) :: int16)
      in pcm1)"

section \<open>Handler registry (handler-registry.ts)\<close>

text \<open>
  The two \<open>Map\<close>s of the registry.  A handler is any value \<open>'h\<close>; what its \<open>handle\<close>
  method does when awaited is given by \<open>run\<close>: \<open>None\<close> when it completes, \<open>Some e\<close> when
  it throws \<open>e\<close>.
\<close>

record 'h registry =
  handlers :: "string \<rightharpoonup> 'h"
  errorHandlers :: "string \<rightharpoonup> 'h"

definition registerHandler :: "string \<Rightarrow> 'h \<Rightarrow> 'h registry \<Rightarrow> 'h registry" where
  "registerHandler eventType h reg = reg\<lparr>handlers := (handlers reg)(eventType \<mapsto> h)\<rparr>"

definition registerErrorHandler :: "string \<Rightarrow> 'h \<Rightarrow> 'h registry \<Rightarrow> 'h registry" where
  "registerErrorHandler eventType h reg =
     reg\<lparr>errorHandlers := (errorHandlers reg)(eventType \<mapsto> h)\<rparr>"

definition unregisterHandler :: "string \<Rightarrow> 'h registry \<Rightarrow> 'h registry" where
  "unregisterHandler eventType reg =
     reg\<lparr>handlers := (handlers reg)(eventType := None),
         errorHandlers := (errorHandlers reg)(eventType := None)\<rparr>"

definition empty_registry :: "'h registry" where
  "empty_registry = \<lparr>handlers = Map.empty, errorHandlers = Map.empty\<rparr>"

text \<open>\<open>String.prototype.endsWith\<close> and \<open>eventType.replace(/\.error$/, '')\<close>.\<close>

definition endsWith :: "string \<Rightarrow> string \<Rightarrow> bool" where
  "endsWith s suf =
     (length suf \<le> length s \<and> drop (length s - length suf) s = suf)"

definition strip_error_suffix :: "string \<Rightarrow> string" where
  "strip_error_suffix s =
     (if endsWith s ''.error'' then take (length s - length ''.error'') s else s)"

definition getHandler :: "'h registry \<Rightarrow> string \<Rightarrow> 'h option" where
  "getHandler reg eventType = handlers reg eventType"

definition getErrorHandler :: "'h registry \<Rightarrow> string \<Rightarrow> 'h option" where
  "getErrorHandler reg eventType =
     (if errorHandlers reg eventType \<noteq> None then errorHandlers reg eventType
      else if endsWith eventType ''.error''
      then errorHandlers reg (strip_error_suffix eventType)
      else None)"

text \<open>
  \<open>await handler.handle(...); return true;\<close> inside the \<open>try\<close> block: the value is
  \<open>Inr True\<close>, or \<open>Inl e\<close> when the handler throws.
\<close>

definition invoke :: "('h \<Rightarrow> string \<Rightarrow> 'e option) \<Rightarrow> 'h \<Rightarrow> string \<Rightarrow> ('e + bool) \<times> 'h list" where
  "invoke run h eventType =
     (case run h eventType of Some e \<Rightarrow> (Inl e, [h]) | None \<Rightarrow> (Inr True, [h]))"

text \<open>
  The \<open>try\<close> block of \<open>routeMessage\<close> together with the final \<open>return false\<close>.  The second
  component lists the handlers that were invoked.
\<close>

definition route_try :: "('h \<Rightarrow> string \<Rightarrow> 'e option) \<Rightarrow> 'h registry \<Rightarrow> string \<Rightarrow> ('e + bool) \<times> 'h list" where
  "route_try run reg eventType =
     (let regular =
            (case getHandler reg eventType of
               Some handler \<Rightarrow> invoke run handler eventType
             | None \<Rightarrow> (Inr False, []))
      in if endsWith eventType ''.error'' then
           (case getErrorHandler reg eventType of
              Some errorHandler \<Rightarrow> invoke run errorHandler eventType
            | None \<Rightarrow>
               (case getHandler reg ''error'' of
                  Some wildcardErrorHandler \<Rightarrow> invoke run wildcardErrorHandler eventType
                | None \<Rightarrow> regular))
         else regular)"

text \<open>
  \<open>routeMessage\<close>: the \<open>catch\<close> clause logs the error and returns \<open>false\<close>.  The result is
  what the caller receives (\<open>Inl\<close> would be an exception reaching the caller), the handlers
  invoked, and the errors passed to \<open>logger.error\<close>.
\<close>

record ('h, 'e) route_result =
  returned :: "'e + bool"
  invoked :: "'h list"
  logged :: "(string \<times> 'e) list"

definition routeMessage :: "('h \<Rightarrow> string \<Rightarrow> 'e option) \<Rightarrow> 'h registry \<Rightarrow> string \<Rightarrow> ('h, 'e) route_result" where
  "routeMessage run reg eventType =
     (case route_try run reg eventType of
        (Inl error, calls) \<Rightarrow>
          \<lparr>returned = Inr False, invoked = calls, logged = [(eventType, error)]\<rparr>
      | (Inr handled, calls) \<Rightarrow>
          \<lparr>returned = Inr handled, invoked = calls, logged = []\<rparr>)"

text \<open>The first defined entry of a list of lookups.\<close>

fun first_found :: "'a option list \<Rightarrow> 'a option" where
  "first_found [] = None"
| "first_found (None # xs) = first_found xs"
| "first_found (Some x # xs) = Some x"

text \<open>
  The lookup order as the specification words it: primary map under the full event type,
  error registry under the stripped type, primary map under \<open>''error''\<close>.
\<close>

definition claimed_lookup :: "'h registry \<Rightarrow> string \<Rightarrow> 'h option" where
  "claimed_lookup reg eventType =
     (if endsWith eventType ''.error'' then
        first_found [handlers reg eventType,
                     errorHandlers reg (strip_error_suffix eventType),
                     handlers reg ''error'']
      else handlers reg eventType)"

text \<open>
  The lookup order of the code, written as a list: error registry under the full event
  type, error registry under the stripped type, primary map under \<open>''error''\<close>, primary map
  under the full event type.
\<close>

definition lookup_order :: "'h registry \<Rightarrow> string \<Rightarrow> 'h option" where
  "lookup_order reg eventType =
     (if endsWith eventType ''.error'' then
        first_found [errorHandlers reg eventType,
                     errorHandlers reg (strip_error_suffix eventType),
                     handlers reg ''error'',
                     handlers reg eventType]
      else handlers reg eventType)"

text \<open>Fixtures: a handler behaviour that never throws, one that always throws, and a
  registry with a primary handler \<open>1\<close> for \<open>voicechat.audio.error\<close> and an error handler \<open>2\<close>
  for the base type \<open>voicechat.audio\<close>.\<close>

definition never_throws :: "nat \<Rightarrow> string \<Rightarrow> string option" where
  "never_throws h eventType = None"


definition error_registry_example :: "nat registry" where
  "error_registry_example =
     registerErrorHandler ''voicechat.audio'' 2
       (registerHandler ''voicechat.audio.error'' 1 empty_registry)"

definition chunk_registry_example :: "nat registry" where
  "chunk_registry_example = registerHandler ''voicechat.response.chunk'' 7 empty_registry"

section \<open>Request tracker (request-tracker.ts)\<close>

text \<open>
  A promise is identified by a number (\<open>future\<close>), a \<open>setTimeout\<close> handle by another
  (\<open>timer_id\<close>).  The tracker state carries the log \<open>settled\<close> of every call of a
  promise's \<open>resolve\<close> or \<open>reject\<close> function, in call order: a promise is settled twice
  exactly when it occurs twice in the log.
\<close>

type_synonym future = nat
type_synonym timer_id = nat

text \<open>
  The five \<open>Error\<close>s the tracker rejects with: \<open>Request cleanup: ...\<close>,
  \<open>Request tracker limit reached\<close>, \<open>Request timeout for ...\<close>, \<open>Request cancelled\<close>,
  \<open>Request tracker cleared\<close>.
\<close>

datatype reject_error =
  RequestCleanup | TrackerLimit | RequestTimeout | RequestCancelled | TrackerCleared

datatype 'a settlement = Resolved 'a | Rejected reject_error

text \<open>
  \<open>interface PendingRequest\<close>.  The fields \<open>resolve\<close> and \<open>reject\<close> are functions; the
  model keeps the promises each of them settles when called, in the order it settles
  them.  \<open>r_timeout\<close> is the handle of the request's timeout.
\<close>

record pending_request =
  r_eventId :: string
  r_eventType :: string
  r_timestamp :: int
  r_resolve :: "future list"
  r_reject :: "future list"
  r_timeout :: timer_id

text \<open>
  An armed timeout: the callback passed to \<open>setTimeout\<close> in \<open>trackRequest\<close> closes over
  \<open>eventId\<close>, \<open>eventType\<close> and the promise's own \<open>reject\<close>; \<open>t_delay\<close> is the delay it was
  armed with (the per-request timeout).
\<close>

record timer =
  t_eventId :: string
  t_eventType :: string
  t_reject :: future
  t_delay :: int

text \<open>
  \<open>class RequestTracker\<close>.  \<open>pendingRequests\<close> is a \<open>Map\<close>, kept as an association list in
  insertion order; \<open>timers\<close> holds the timeouts that are armed; \<open>cleanupTimer\<close> says
  whether the sweep interval is running.  \<open>maxPendingRequests\<close> is
  \<open>Number(env) || 100\<close>: a number, not necessarily a whole or a positive one.  \<open>wraps\<close>
  holds the microtasks that \<open>trackRequest\<close> has queued for event ids that were already
  pending, in their order: each is given by the request object it has captured, which
  the handle of its timeout identifies, and by the promise it is going to chain.
\<close>

record 'a tracker =
  pendingRequests :: "(string \<times> pending_request) list"
  defaultTimeout :: int
  maxPendingRequests :: rat
  cleanupTimer :: bool
  timers :: "(timer_id \<times> timer) list"
  next_timer :: timer_id
  next_future :: future
  settled :: "(future \<times> 'a settlement) list"
  wraps :: "(timer_id \<times> future) list"

text \<open>The constructor, with the two configuration values it reads from \<open>wsConfig\<close>.\<close>

definition new_tracker :: "int \<Rightarrow> rat \<Rightarrow> 'a tracker" where
  "new_tracker default_timeout max_pending =
     \<lparr>pendingRequests = [], defaultTimeout = default_timeout,
      maxPendingRequests = max_pending, cleanupTimer = True,
      timers = [], next_timer = 0, next_future = 0, settled = [], wraps = []\<rparr>"

text \<open>\<open>defaultConfig.requestTracker\<close> of websocket-config.ts.\<close>

definition default_tracker :: "'a tracker" where
  "default_tracker = new_tracker 30000 100"

text \<open>\<open>clearTimeout\<close>, a call of a \<open>resolve\<close> or \<open>reject\<close> function, \<open>Map.delete\<close>.\<close>

definition clearTimeout :: "timer_id \<Rightarrow> 'a tracker \<Rightarrow> 'a tracker" where
  "clearTimeout tid s = s\<lparr>timers := AList.delete tid (timers s)\<rparr>"

definition settle :: "future list \<Rightarrow> 'a settlement \<Rightarrow> 'a tracker \<Rightarrow> 'a tracker" where
  "settle fs outcome s = s\<lparr>settled := settled s @ map (\<lambda>f. (f, outcome)) fs\<rparr>"

definition delete_request :: "string \<Rightarrow> 'a tracker \<Rightarrow> 'a tracker" where
  "delete_request eid s = s\<lparr>pendingRequests := AList.delete eid (pendingRequests s)\<rparr>"

text \<open>
  \<open>cleanupOldRequests\<close>: the body of the \<open>for\<close> loop for one entry, and the loop over the
  entries of the map.  Deleting the entry being visited does not disturb the iteration
  of a \<open>Map\<close>, so the loop visits the entries present at its start.
\<close>

definition cleanup_entry :: "int \<Rightarrow> int \<Rightarrow> string \<times> pending_request \<Rightarrow> 'a tracker \<Rightarrow> 'a tracker" where
  "cleanup_entry now maxAge entry s =
     (case entry of (eid, request) \<Rightarrow>
        if now - r_timestamp request > maxAge
        then delete_request eid
               (settle (r_reject request) (Rejected RequestCleanup)
                  (clearTimeout (r_timeout request) s))
        else s)"

definition cleanupOldRequests :: "int \<Rightarrow> 'a tracker \<Rightarrow> 'a tracker" where
  "cleanupOldRequests now s =
     (let maxAge = defaultTimeout s * 2
      in fold (cleanup_entry now maxAge) (pendingRequests s) s)"

text \<open>
  \<open>trackRequest\<close>.  For an event id that is already pending the method returns a new
  promise and queues a microtask (\<open>Promise.resolve(...).then\<close>) that will wrap the
  \<open>resolve\<close> and \<open>reject\<close> of the request found by the call.  Otherwise the limit is
  enforced, and a new request with a fresh promise and a fresh timeout is stored.
  \<open>timeout_arg\<close> is the optional parameter, \<open>now\<close> the value of \<open>Date.now()\<close>.
\<close>

definition evict_oldest :: "'a tracker \<Rightarrow> 'a tracker" where
  "evict_oldest s =
     (case sort_key (\<lambda>entry. r_timestamp (snd entry)) (pendingRequests s) of
        [] \<Rightarrow> s
      | oldestEntry # rest \<Rightarrow>
          delete_request (fst oldestEntry)
            (settle (r_reject (snd oldestEntry)) (Rejected TrackerLimit)
               (clearTimeout (r_timeout (snd oldestEntry)) s)))"

definition trackRequest :: "string \<Rightarrow> string \<Rightarrow> int option \<Rightarrow> int \<Rightarrow> 'a tracker \<Rightarrow> future \<times> 'a tracker" where
  "trackRequest eid etype timeout_arg now s =
     (let tmo = (case timeout_arg of None \<Rightarrow> defaultTimeout s | Some t \<Rightarrow> t)
      in case map_of (pendingRequests s) eid of
           Some existingRequest \<Rightarrow>
             (let p = next_future s
              in (p, s\<lparr>wraps := wraps s @ [(r_timeout existingRequest, p)],
                        next_future := Suc p\<rparr>))
         | None \<Rightarrow>
             (let s1 = (if of_nat (length (pendingRequests s)) \<ge> maxPendingRequests s
                        then evict_oldest s else s);
                  p = next_future s1;
                  tid = next_timer s1;
                  request = \<lparr>r_eventId = eid, r_eventType = etype, r_timestamp = now,
                             r_resolve = [p], r_reject = [p], r_timeout = tid\<rparr>;
                  callback = \<lparr>t_eventId = eid, t_eventType = etype, t_reject = p,
                              t_delay = tmo\<rparr>
              in (p, s1\<lparr>pendingRequests := pendingRequests s1 @ [(eid, request)],
                         timers := timers s1 @ [(tid, callback)],
                         next_timer := Suc tid,
                         next_future := Suc p\<rparr>)))"

text \<open>
  The microtask at the head of the queue: it wraps the \<open>resolve\<close> and \<open>reject\<close> of the
  request object it has captured, so that they settle its promise after the ones they
  settled before.  When that object has left the map, nothing refers to it any more,
  and the wrapping has no effect.
\<close>

definition run_wrap :: "'a tracker \<Rightarrow> 'a tracker" where
  "run_wrap s =
     (case wraps s of
        [] \<Rightarrow> s
      | (tid, p) # rest \<Rightarrow>
          (case find (\<lambda>entry. r_timeout (snd entry) = tid) (pendingRequests s) of
             None \<Rightarrow> s\<lparr>wraps := rest\<rparr>
           | Some (eid, existingRequest) \<Rightarrow>
               s\<lparr>wraps := rest,
                 pendingRequests :=
                   AList.update eid
                     (existingRequest\<lparr>r_resolve := r_resolve existingRequest @ [p],
                                      r_reject := r_reject existingRequest @ [p]\<rparr>)
                     (pendingRequests s)\<rparr>))"

text \<open>\<open>matchAck\<close>: clear the timeout, delete the entry, then resolve.\<close>

definition matchAck :: "string \<Rightarrow> 'a \<Rightarrow> 'a tracker \<Rightarrow> bool \<times> 'a tracker" where
  "matchAck eid ackMessage s =
     (case map_of (pendingRequests s) eid of
        None \<Rightarrow> (False, s)
      | Some request \<Rightarrow>
          (True, settle (r_resolve request) (Resolved ackMessage)
                   (delete_request eid (clearTimeout (r_timeout request) s))))"

definition handleTimeout :: "string \<Rightarrow> 'a tracker \<Rightarrow> 'a tracker" where
  "handleTimeout eid s =
     (case map_of (pendingRequests s) eid of
        Some request \<Rightarrow> delete_request eid (clearTimeout (r_timeout request) s)
      | None \<Rightarrow> s)"

text \<open>
  The timeout callback of \<open>trackRequest\<close>, run when the timer \<open>tid\<close> fires.  A timer that
  was cleared, or has fired already, does nothing.  The callback rejects through the
  \<open>reject\<close> of the promise it was created with, not through \<open>request.reject\<close>.
\<close>

definition timeout_fired :: "timer_id \<Rightarrow> 'a tracker \<Rightarrow> 'a tracker" where
  "timeout_fired tid s =
     (case map_of (timers s) tid of
        None \<Rightarrow> s
      | Some callback \<Rightarrow>
          (let s0 = s\<lparr>timers := AList.delete tid (timers s)\<rparr>
           in case map_of (pendingRequests s0) (t_eventId callback) of
                Some pendingRequest \<Rightarrow>
                  settle [t_reject callback] (Rejected RequestTimeout)
                    (handleTimeout (t_eventId callback) s0)
              | None \<Rightarrow> s0))"

definition cancelRequest :: "string \<Rightarrow> 'a tracker \<Rightarrow> 'a tracker" where
  "cancelRequest eid s =
     (case map_of (pendingRequests s) eid of
        Some request \<Rightarrow>
          delete_request eid
            (settle (r_reject request) (Rejected RequestCancelled)
               (clearTimeout (r_timeout request) s))
      | None \<Rightarrow> s)"

text \<open>\<open>clear\<close>: the \<open>forEach\<close> over the requests, then \<open>Map.clear\<close>.\<close>

definition clear_entry :: "string \<times> pending_request \<Rightarrow> 'a tracker \<Rightarrow> 'a tracker" where
  "clear_entry entry s =
     settle (r_reject (snd entry)) (Rejected TrackerCleared)
       (clearTimeout (r_timeout (snd entry)) s)"

definition clear :: "'a tracker \<Rightarrow> 'a tracker" where
  "clear s = (fold clear_entry (pendingRequests s) s)\<lparr>pendingRequests := []\<rparr>"

definition getPendingCount :: "'a tracker \<Rightarrow> nat" where
  "getPendingCount s = length (pendingRequests s)"

definition destroy :: "'a tracker \<Rightarrow> 'a tracker" where
  "destroy s = clear (s\<lparr>cleanupTimer := False\<rparr>)"

text \<open>
  What can happen to a tracker: the calls of its public methods, the firing of a
  request's timeout, a tick of the sweep interval (which runs \<open>cleanupOldRequests\<close>
  while the interval is armed), and the microtask at the head of the queue.  The
  browser runs the queued microtasks after every task and before the next one; the
  model leaves the moment of each microtask to the sequence of events.
\<close>

datatype 'a tracker_event =
  Track string string "int option" int
  | MatchAck string 'a
  | Cancel string
  | Clear
  | Destroy
  | TimeoutFired timer_id
  | CleanupTick int
  | WrapMicrotask

fun tracker_step :: "'a tracker \<Rightarrow> 'a tracker_event \<Rightarrow> 'a tracker" where
  "tracker_step s (Track eid etype timeout_arg now) = snd (trackRequest eid etype timeout_arg now s)"
| "tracker_step s (MatchAck eid ack) = snd (matchAck eid ack s)"
| "tracker_step s (Cancel eid) = cancelRequest eid s"
| "tracker_step s Clear = clear s"
| "tracker_step s Destroy = destroy s"
| "tracker_step s (TimeoutFired tid) = timeout_fired tid s"
| "tracker_step s (CleanupTick now) = (if cleanupTimer s then cleanupOldRequests now s else s)"
| "tracker_step s WrapMicrotask = run_wrap s"

definition tracker_run :: "'a tracker \<Rightarrow> 'a tracker_event list \<Rightarrow> 'a tracker" where
  "tracker_run s evs = foldl tracker_step s evs"



subsection \<open>Notions used to state the tracker's properties\<close>

text \<open>The promises held by the pending requests, in map order.\<close>

definition pending_futures :: "'a tracker \<Rightarrow> future list" where
  "pending_futures s = concat (map (\<lambda>entry. r_resolve (snd entry)) (pendingRequests s))"

text \<open>
  A pending entry is well formed when it is stored under its own event id, its \<open>resolve\<close>
  and \<open>reject\<close> settle the same promises, and its timeout is armed with a callback for
  this event id that rejects one of these promises.
\<close>

definition entry_ok :: "'a tracker \<Rightarrow> string \<times> pending_request \<Rightarrow> bool" where
  "entry_ok s entry =
     (r_eventId (snd entry) = fst entry \<and> r_reject (snd entry) = r_resolve (snd entry) \<and>
      (case map_of (timers s) (r_timeout (snd entry)) of
         None \<Rightarrow> False
       | Some t \<Rightarrow> t_eventId t = fst entry \<and> t_reject t \<in> set (r_resolve (snd entry))))"

text \<open>An armed timeout belongs to the pending request of its event id.\<close>

definition timer_ok :: "'a tracker \<Rightarrow> timer_id \<times> timer \<Rightarrow> bool" where
  "timer_ok s x =
     (fst x < next_timer s \<and>
      (case map_of (pendingRequests s) (t_eventId (snd x)) of
         None \<Rightarrow> False
       | Some r \<Rightarrow> r_timeout r = fst x))"

text \<open>
  What holds in every state the tracker reaches: event ids and timeout handles are
  unique, entries and timeouts are well formed, no promise is held twice or held and
  settled, and the promises of the queued microtasks are distinct and neither held by a
  request nor settled.
\<close>

definition tracker_inv :: "'a tracker \<Rightarrow> bool" where
  "tracker_inv s \<longleftrightarrow>
     distinct (map fst (pendingRequests s)) \<and>
     distinct (map fst (timers s)) \<and>
     list_all (entry_ok s) (pendingRequests s) \<and>
     list_all (timer_ok s) (timers s) \<and>
     distinct (pending_futures s @ map fst (settled s)) \<and>
     list_all (\<lambda>f. f < next_future s) (pending_futures s @ map fst (settled s)) \<and>
     distinct (map snd (wraps s)) \<and>
     list_all (\<lambda>p. p < next_future s \<and> p \<notin> set (pending_futures s) \<and>
                    p \<notin> fst ` set (settled s)) (map snd (wraps s))"





text \<open>
  The common shape of every removal: the entries selected by \<open>P\<close> leave the map, their
  timeouts are cleared, and the settlements \<open>g\<close> lists for them are appended to the log.
\<close>

definition drop_requests :: "(string \<times> pending_request \<Rightarrow> bool) \<Rightarrow> (string \<times> pending_request \<Rightarrow> (future \<times> 'a settlement) list) \<Rightarrow> 'a tracker \<Rightarrow> 'a tracker" where
  "drop_requests P g s =
     s\<lparr>pendingRequests := filter (\<lambda>e. \<not> P e) (pendingRequests s),
       timers := filter (\<lambda>x. fst x \<notin> (\<lambda>e. r_timeout (snd e)) ` set (filter P (pendingRequests s)))
                   (timers s),
       settled := settled s @ concat (map g (filter P (pendingRequests s)))\<rparr>"

definition reject_all :: "reject_error \<Rightarrow> string \<times> pending_request \<Rightarrow> (future \<times> 'a settlement) list" where
  "reject_all err e = map (\<lambda>f. (f, Rejected err)) (r_reject (snd e))"

text \<open>The tracker after the limit check of \<open>trackRequest\<close>.\<close>

definition after_limit :: "'a tracker \<Rightarrow> 'a tracker" where
  "after_limit s =
     (if of_nat (length (pendingRequests s)) \<ge> maxPendingRequests s then evict_oldest s else s)"

section \<open>Transport client (socket-client.ts)\<close>

text \<open>\<open>type ConnectionState\<close> of client/types.ts, and the \<open>readyState\<close> of a \<open>WebSocket\<close>.\<close>

datatype ConnectionState = Disconnected | Connecting | Connected | Reconnecting | Error

datatype ready_state = CONNECTING | OPEN | CLOSING | CLOSED

text \<open>
  The part of \<open>wsConfig\<close> the client reads, and \<open>url_ok\<close>: whether \<open>new WebSocket(url)\<close>
  accepts the URL (it throws on one it cannot parse).  \<open>maxReconnectAttempts\<close> is
  \<open>Number(env) || 6\<close>: a number, not necessarily a whole or a positive one.
\<close>

record client_config =
  maxReconnectAttempts :: rat
  delay_initial :: int
  delay_second :: int
  delay_max :: int
  url_ok :: "string \<Rightarrow> bool"

text \<open>\<open>defaultConfig\<close> of websocket-config.ts, with every URL accepted.\<close>

definition accept_url :: "string \<Rightarrow> bool" where
  "accept_url url = True"

definition default_config :: client_config where
  "default_config =
     \<lparr>maxReconnectAttempts = 6, delay_initial = 2000, delay_second = 5000, delay_max = 10000,
      url_ok = accept_url\<rparr>"

text \<open>
  How the promise of a connection waiter ends: \<open>Connection failed\<close>, \<open>Connection timeout\<close>,
  or, without a waiter being registered, \<open>Network unavailable or no URL\<close>.
\<close>

datatype wait_error = ConnectionFailed | ConnectionTimeout | NetworkUnavailable

datatype wait_result = WaitResolved | WaitRejected wait_error

text \<open>
  \<open>class SocketClient\<close>.  Every \<open>WebSocket\<close> the client has created is an entry of
  \<open>sockets\<close> (its \<open>readyState\<close>), and \<open>ws\<close> is the index of the one the field \<open>this.ws\<close>
  refers to: the handlers installed on a socket keep running for it after \<open>this.ws\<close> has
  moved on.  \<open>connectionWaiters\<close> is the \<open>Map\<close> of waiters in insertion order, a waiter
  being identified by a number in place of its \<open>Symbol\<close>; \<open>waiter_timers\<close> are the waiter
  timeouts that are armed; \<open>reconnectTimer\<close> holds the delay of the armed reconnect
  timeout; \<open>online\<close> is \<open>networkMonitor.getStatus()\<close>.  Three logs record what the client
  does: \<open>waiter_log\<close> every call of a waiter promise's \<open>resolve\<close> or \<open>reject\<close>,
  \<open>scheduled_delays\<close> every delay \<open>scheduleReconnect\<close> passes to \<open>setTimeout\<close>, and
  \<open>emitted\<close> every \<open>state\<close> event.
\<close>

record client =
  sockets :: "ready_state list"
  ws :: "nat option"
  currentUrl :: "string option"
  state :: ConnectionState
  reconnectAttempts :: nat
  reconnectTimer :: "int option"
  shouldReconnect :: bool
  connectionWaiters :: "nat list"
  waiter_timers :: "nat list"
  next_waiter :: nat
  pingTimer :: bool
  online :: bool
  waiter_log :: "(nat \<times> wait_result) list"
  scheduled_delays :: "int list"
  emitted :: "ConnectionState list"

definition new_client :: "bool \<Rightarrow> client" where
  "new_client is_online =
     \<lparr>sockets = [], ws = None, currentUrl = None, state = Disconnected,
      reconnectAttempts = 0, reconnectTimer = None, shouldReconnect = True,
      connectionWaiters = [], waiter_timers = [], next_waiter = 0, pingTimer = False,
      online = is_online, waiter_log = [], scheduled_delays = [], emitted = []\<rparr>"

text \<open>\<open>this.ws?.readyState\<close>.\<close>

definition ws_readyState :: "client \<Rightarrow> ready_state option" where
  "ws_readyState s =
     (case ws s of
        None \<Rightarrow> None
      | Some k \<Rightarrow> if k < length (sockets s) then Some (sockets s ! k) else None)"

definition isConnected :: "client \<Rightarrow> bool" where
  "isConnected s = (state s = Connected \<and> ws_readyState s = Some OPEN)"

definition setState :: "ConnectionState \<Rightarrow> client \<Rightarrow> client" where
  "setState newState s =
     (if state s \<noteq> newState
      then s\<lparr>state := newState, emitted := emitted s @ [newState]\<rparr>
      else s)"

definition getReconnectDelay :: "client_config \<Rightarrow> nat \<Rightarrow> int" where
  "getReconnectDelay cfg attempts =
     (if attempts = 0 then delay_initial cfg
      else if attempts = 1 then delay_second cfg
      else delay_max cfg)"

text \<open>\<open>scheduleReconnect\<close>, up to the arming of the timeout.\<close>

definition scheduleReconnect :: "client_config \<Rightarrow> client \<Rightarrow> client" where
  "scheduleReconnect cfg s =
     (if reconnectTimer s \<noteq> None then s
      else if \<not> shouldReconnect s then s
      else if currentUrl s = None then s
      else if \<not> online s then s
      else if of_nat (reconnectAttempts s) \<ge> maxReconnectAttempts cfg then setState Error s
      else
        (let delay = getReconnectDelay cfg (reconnectAttempts s);
             s1 = s\<lparr>reconnectAttempts := Suc (reconnectAttempts s)\<rparr>;
             s2 = setState Reconnecting s1
         in s2\<lparr>reconnectTimer := Some delay,
                scheduled_delays := scheduled_delays s2 @ [delay]\<rparr>))"

text \<open>
  \<open>connect\<close>.  A new socket starts in \<open>CONNECTING\<close>; when the constructor throws, the
  \<open>catch\<close> clause sets the error state and calls \<open>scheduleReconnect\<close>.
\<close>

definition connect :: "client_config \<Rightarrow> string \<Rightarrow> client \<Rightarrow> client" where
  "connect cfg url s =
     (if ws_readyState s = Some OPEN then s
      else if ws_readyState s = Some CONNECTING then s
      else if \<not> online s then setState Error s
      else
        (let s1 = setState Connecting (s\<lparr>currentUrl := Some url, shouldReconnect := True\<rparr>)
         in if url_ok cfg url
            then s1\<lparr>sockets := sockets s1 @ [CONNECTING], ws := Some (length (sockets s1))\<rparr>
            else scheduleReconnect cfg (setState Error s1)))"

text \<open>
  The \<open>resolve\<close> and \<open>reject\<close> of a \<open>ConnectionWaiter\<close>: clear the waiter's timeout, delete
  it from the map, settle the promise.
\<close>

definition waiter_resolve :: "nat \<Rightarrow> client \<Rightarrow> client" where
  "waiter_resolve w s =
     s\<lparr>waiter_timers := removeAll w (waiter_timers s),
       connectionWaiters := removeAll w (connectionWaiters s),
       waiter_log := waiter_log s @ [(w, WaitResolved)]\<rparr>"

definition waiter_reject :: "wait_error \<Rightarrow> nat \<Rightarrow> client \<Rightarrow> client" where
  "waiter_reject err w s =
     s\<lparr>waiter_timers := removeAll w (waiter_timers s),
       connectionWaiters := removeAll w (connectionWaiters s),
       waiter_log := waiter_log s @ [(w, WaitRejected err)]\<rparr>"

definition resumeConnectionWaiters :: "bool \<Rightarrow> client \<Rightarrow> client" where
  "resumeConnectionWaiters success s =
     (let waiters = connectionWaiters s;
          s1 = s\<lparr>connectionWaiters := []\<rparr>
      in fold (\<lambda>waiter. if success then waiter_resolve waiter
                         else waiter_reject ConnectionFailed waiter) waiters s1)"

definition startPingTimer :: "client \<Rightarrow> client" where
  "startPingTimer s = s\<lparr>pingTimer := True\<rparr>"

definition stopPingTimer :: "client \<Rightarrow> client" where
  "stopPingTimer s = s\<lparr>pingTimer := False\<rparr>"

text \<open>The handlers \<open>connect\<close> installs on a socket.\<close>

definition onopen :: "client \<Rightarrow> client" where
  "onopen s =
     resumeConnectionWaiters True
       (startPingTimer ((setState Connected s)\<lparr>reconnectAttempts := 0\<rparr>))"

definition onerror :: "client \<Rightarrow> client" where
  "onerror s = setState Error s"

definition onclose :: "client_config \<Rightarrow> int \<Rightarrow> client \<Rightarrow> client" where
  "onclose cfg code s =
     (let s1 = resumeConnectionWaiters False
                 (stopPingTimer ((setState Disconnected s)\<lparr>ws := None\<rparr>))
      in if shouldReconnect s1 \<and> code \<noteq> 1000 then scheduleReconnect cfg s1 else s1)"

text \<open>\<open>WebSocket.close()\<close> on the socket with index \<open>k\<close>.\<close>

definition socket_close :: "nat \<Rightarrow> client \<Rightarrow> client" where
  "socket_close k s =
     (if k < length (sockets s) \<and> (sockets s ! k = CONNECTING \<or> sockets s ! k = OPEN)
      then s\<lparr>sockets := (sockets s)[k := CLOSING]\<rparr>
      else s)"

definition disconnect :: "bool \<Rightarrow> client \<Rightarrow> client" where
  "disconnect clear_url s =
     (let s1 = s\<lparr>shouldReconnect := False\<rparr>;
          s2 = s1\<lparr>reconnectTimer := None\<rparr>;
          s3 = resumeConnectionWaiters False s2;
          s4 = (case ws s3 of Some k \<Rightarrow> (socket_close k s3)\<lparr>ws := None\<rparr> | None \<Rightarrow> s3);
          s5 = setState Disconnected (stopPingTimer s4)
      in if clear_url then s5\<lparr>currentUrl := None\<rparr> else s5)"

text \<open>
  \<open>waitForConnection\<close>.  The first component is the outcome when the promise is
  settled before the method returns; \<open>None\<close> means that a waiter with a fresh id and an
  armed timeout has been created.
\<close>

definition waitForConnection :: "client_config \<Rightarrow> client \<Rightarrow> wait_result option \<times> client" where
  "waitForConnection cfg s =
     (if isConnected s then (Some WaitResolved, s)
      else case currentUrl s of
        None \<Rightarrow> (Some (WaitRejected NetworkUnavailable), s)
      | Some url \<Rightarrow>
          if \<not> online s then (Some (WaitRejected NetworkUnavailable), s)
          else
            (let s1 = (if \<not> isConnected s \<and> online s then connect cfg url s else s);
                 waiterId = next_waiter s1;
                 s2 = s1\<lparr>next_waiter := Suc waiterId,
                         waiter_timers := waiter_timers s1 @ [waiterId]\<rparr>
             in if isConnected s2 then (None, waiter_resolve waiterId s2)
                else (None, s2\<lparr>connectionWaiters := connectionWaiters s2 @ [waiterId]\<rparr>)))"

text \<open>
  \<open>send\<close>, up to its \<open>await\<close>: on the fast path the data goes out at once, otherwise the
  call waits for the connection.
\<close>

definition send :: "client_config \<Rightarrow> client \<Rightarrow> client" where
  "send cfg s =
     (if isConnected s \<and> ws s \<noteq> None then s else snd (waitForConnection cfg s))"

text \<open>The callback of a waiter's timeout.\<close>

definition waiter_timeout_fired :: "nat \<Rightarrow> client \<Rightarrow> client" where
  "waiter_timeout_fired w s =
     (if w \<in> set (waiter_timers s)
      then (let s1 = s\<lparr>waiter_timers := removeAll w (waiter_timers s)\<rparr>
            in if w \<in> set (connectionWaiters s1)
               then s1\<lparr>connectionWaiters := removeAll w (connectionWaiters s1),
                       waiter_log := waiter_log s1 @ [(w, WaitRejected ConnectionTimeout)]\<rparr>
               else s1)
      else s)"

text \<open>The callback of the reconnect timeout.\<close>

definition reconnect_timer_fired :: "client_config \<Rightarrow> client \<Rightarrow> client" where
  "reconnect_timer_fired cfg s =
     (if reconnectTimer s = None then s
      else
        (let s1 = s\<lparr>reconnectTimer := None\<rparr>
         in if \<not> online s1 then setState Disconnected s1
            else if isConnected s1 then s1
            else if state s1 = Connecting then s1
            else case currentUrl s1 of Some url \<Rightarrow> connect cfg url s1 | None \<Rightarrow> s1))"

definition handlePingFailure :: "client_config \<Rightarrow> client \<Rightarrow> client" where
  "handlePingFailure cfg s =
     (let s1 = setState Disconnected s;
          s2 = (case ws s1 of Some k \<Rightarrow> (socket_close k s1)\<lparr>ws := None\<rparr> | None \<Rightarrow> s1)
      in if currentUrl s2 \<noteq> None \<and> online s2 then scheduleReconnect cfg s2 else s2)"

text \<open>The callback of the ping interval.\<close>

definition ping_tick :: "client_config \<Rightarrow> client \<Rightarrow> client" where
  "ping_tick cfg s =
     (if \<not> pingTimer s then s
      else if \<not> isConnected s \<or> ws s = None then stopPingTimer s
      else if ws_readyState s \<noteq> Some OPEN then handlePingFailure cfg s
      else s)"

text \<open>
  The \<open>change\<close> event of the network monitor, which fires when the status changes, and
  the client's handler for it.
\<close>

definition network_change :: "client_config \<Rightarrow> bool \<Rightarrow> client \<Rightarrow> client" where
  "network_change cfg isOnline s =
     (if online s = isOnline then s
      else
        (let s1 = s\<lparr>online := isOnline\<rparr>
         in if isOnline \<and> \<not> isConnected s1 \<and> currentUrl s1 \<noteq> None
            then scheduleReconnect cfg s1 else s1))"

text \<open>
  What can happen to a client: calls of \<open>connect\<close>, \<open>disconnect\<close> and \<open>send\<close>; the
  \<open>open\<close>, \<open>error\<close> and \<open>close\<close> events of one of its sockets (a socket opens from
  \<open>CONNECTING\<close>, and closes once); the firing of its timers; a change of the network
  status.
\<close>

datatype client_event =
  Connect string
  | Disconnect bool
  | Send
  | WsOpen nat
  | WsError nat
  | WsClose nat int
  | ReconnectTimerFired
  | WaiterTimeout nat
  | PingTick
  | NetworkChange bool

fun client_step :: "client_config \<Rightarrow> client \<Rightarrow> client_event \<Rightarrow> client" where
  "client_step cfg s (Connect url) = connect cfg url s"
| "client_step cfg s (Disconnect clear_url) = disconnect clear_url s"
| "client_step cfg s Send = send cfg s"
| "client_step cfg s (WsOpen k) =
     (if k < length (sockets s) \<and> sockets s ! k = CONNECTING
      then onopen (s\<lparr>sockets := (sockets s)[k := OPEN]\<rparr>) else s)"
| "client_step cfg s (WsError k) =
     (if k < length (sockets s) \<and> sockets s ! k \<noteq> CLOSED then onerror s else s)"
| "client_step cfg s (WsClose k code) =
     (if k < length (sockets s) \<and> sockets s ! k \<noteq> CLOSED
      then onclose cfg code (s\<lparr>sockets := (sockets s)[k := CLOSED]\<rparr>) else s)"
| "client_step cfg s ReconnectTimerFired = reconnect_timer_fired cfg s"
| "client_step cfg s (WaiterTimeout w) = waiter_timeout_fired w s"
| "client_step cfg s PingTick = ping_tick cfg s"
| "client_step cfg s (NetworkChange isOnline) = network_change cfg isOnline s"

definition client_run :: "client_config \<Rightarrow> client \<Rightarrow> client_event list \<Rightarrow> client" where
  "client_run cfg s evs = foldl (client_step cfg) s evs"

text \<open>
  The settlements of waiter promises an event causes, as the amended claim C7 words
  them: an opening socket resolves all waiters in insertion order, a closing socket and
  a \<open>disconnect\<close> reject them all, a waiter's timeout rejects that waiter, and nothing
  else settles any.
\<close>

fun waiter_settlements :: "client \<Rightarrow> client_event \<Rightarrow> (nat \<times> wait_result) list" where
  "waiter_settlements s (WsOpen k) =
     (if k < length (sockets s) \<and> sockets s ! k = CONNECTING
      then map (\<lambda>w. (w, WaitResolved)) (connectionWaiters s) else [])"
| "waiter_settlements s (WsClose k code) =
     (if k < length (sockets s) \<and> sockets s ! k \<noteq> CLOSED
      then map (\<lambda>w. (w, WaitRejected ConnectionFailed)) (connectionWaiters s) else [])"
| "waiter_settlements s (Disconnect clear_url) =
     map (\<lambda>w. (w, WaitRejected ConnectionFailed)) (connectionWaiters s)"
| "waiter_settlements s (WaiterTimeout w) =
     (if w \<in> set (waiter_timers s) \<and> w \<in> set (connectionWaiters s)
      then [(w, WaitRejected ConnectionTimeout)] else [])"
| "waiter_settlements s other = []"

text \<open>The test of \<open>scheduleReconnect\<close> for giving up: the attempt counter is not below the maximum.\<close>

definition attempts_exhausted :: "client_config \<Rightarrow> nat \<Rightarrow> bool" where
  "attempts_exhausted cfg attempts = (of_nat attempts \<ge> maxReconnectAttempts cfg)"

text \<open>An event that opens a socket.\<close>

fun opens_socket :: "client \<Rightarrow> client_event \<Rightarrow> bool" where
  "opens_socket s (WsOpen k) = (k < length (sockets s) \<and> sockets s ! k = CONNECTING)"
| "opens_socket s other = False"

fun is_open_event :: "client_event \<Rightarrow> bool" where
  "is_open_event (WsOpen k) = True"
| "is_open_event other = False"

text \<open>
  Fixture: a connection that opens once and then fails again and again, each failure
  followed by the firing of the reconnect timeout, until the client gives up.
\<close>

definition exhaustion_events :: "client_event list" where
  "exhaustion_events =
     [Connect ''wss://voice.example/ws'', WsOpen 0,
      WsClose 0 1006, ReconnectTimerFired,
      WsClose 1 1006, ReconnectTimerFired,
      WsClose 2 1006, ReconnectTimerFired,
      WsClose 3 1006, ReconnectTimerFired,
      WsClose 4 1006, ReconnectTimerFired,
      WsClose 5 1006, ReconnectTimerFired,
      WsClose 6 1006]"

section \<open>Playback sequencer (playback.ts) and the response-chunk handler (VoiceChat.tsx)\<close>

subsection \<open>Buffers and views\<close>

text \<open>
  The \<open>ArrayBuffer\<close>s of the program form a store: a list of byte sequences, an
  \<open>ArrayBuffer\<close> being identified by its index.  A \<open>Uint8Array\<close> is a view: a buffer, a
  byte offset and a length.  Two views on the same buffer alias.
\<close>

type_synonym byte = "8 word"

record view =
  v_buffer :: nat
  v_byteOffset :: nat
  v_length :: nat

definition view_bytes :: "byte list list \<Rightarrow> view \<Rightarrow> byte list" where
  "view_bytes h v =
     (if v_buffer v < length h
      then take (v_length v) (drop (v_byteOffset v) (h ! v_buffer v))
      else [])"

text \<open>A view that lies inside an existing buffer.\<close>

definition view_ok :: "byte list list \<Rightarrow> view \<Rightarrow> bool" where
  "view_ok h v =
     (v_buffer v < length h \<and> v_byteOffset v + v_length v \<le> length (h ! v_buffer v))"

text \<open>An element store \<open>buffer[i] = b\<close> through some view of the buffer \<open>a\<close>.\<close>

definition store_byte :: "nat \<Rightarrow> nat \<Rightarrow> byte \<Rightarrow> byte list list \<Rightarrow> byte list list" where
  "store_byte a i b h =
     (if a < length h \<and> i < length (h ! a) then h[a := (h ! a)[i := b]] else h)"

text \<open>A number as \<open>Number.isFinite\<close> sees it: \<open>None\<close> is a value that is not finite.\<close>

type_synonym js_number = "int option"

subsection \<open>The sequencer\<close>

text \<open>
  \<open>interface QueuedChunk\<close>; \<open>c_id\<close> stands for the identity of the object, a number drawn
  from a counter when \<open>playChunk\<close> creates it.
\<close>

record chunk =
  c_id :: nat
  audio :: view
  utteranceId :: string
  sampleRate :: js_number
  timestamp :: int

text \<open>
  Why \<open>playChunkImmediately\<close> rejects: \<open>Audio data is empty\<close>, \<open>Invalid sample rate\<close>,
  \<open>Audio buffer is empty after conversion\<close>, \<open>Failed to resume audio context\<close>.
\<close>

datatype play_error = EmptyAudio | InvalidSampleRate | EmptyAfterConversion | ResumeFailure

text \<open>
  \<open>class AudioPlayback\<close>, together with what its asynchronous parts need.  The model
  advances in steps: the synchronous part of a call of \<open>playChunk\<close> or \<open>stop\<close>, one
  microtask, the \<open>ended\<close> event of a source, or a change of the audio context's state.
  \<open>heap\<close> is the store of buffers.  \<open>ctx_running\<close> says whether the audio context
  reports \<open>running\<close>.  A \<open>processQueue\<close> loop that has called \<open>playChunkImmediately\<close> for
  a chunk waits for the promise of \<open>initAudioContext\<close>: when the context reports
  \<open>suspended\<close>, that promise waits for \<open>resume()\<close>, and \<open>ctx_waiters\<close> lists, in the order
  of their calls, the chunks waiting there; when the promise is fulfilled, the \<open>then\<close>
  callback that validates, decodes and starts the chunk is queued as a microtask, and
  \<open>callbacks\<close> lists the chunks of the queued callbacks in their order.
  \<open>continuations\<close> counts the loops whose awaited promise of \<open>playChunkImmediately\<close> has
  been settled and whose continuation is queued as a microtask.  \<open>playing\<close> lists the
  sources that were started and whose \<open>ended\<close> event is still to come.  Three logs
  record what the sequencer does: \<open>scheduled\<close> every \<open>source.start\<close> with the source, the
  chunk it plays and the samples copied into its buffer; \<open>stopped\<close> every \<open>source.stop\<close>;
  \<open>dropped\<close> every chunk whose playback was rejected.  The Web Audio calls themselves
  (\<open>createBuffer\<close>, \<open>start\<close>) are taken to succeed.

  The browser runs the queued microtasks, until none is left, after every task and
  before the next one.  The model leaves the moment of each microtask to the sequence
  of events: what holds for all sequences holds for those of the browser.
\<close>

record playback =
  heap :: "byte list list"
  audioQueue :: "chunk list"
  activeSources :: "nat list"
  isPlaying :: bool
  currentUtteranceId :: "string option"
  pb_sampleRate :: js_number
  isProcessingQueue :: bool
  ctx_running :: bool
  ctx_waiters :: "chunk list"
  callbacks :: "chunk list"
  continuations :: nat
  playing :: "nat list"
  next_source :: nat
  next_chunk :: nat
  scheduled :: "(nat \<times> chunk \<times> rat list) list"
  stopped :: "nat list"
  dropped :: "(chunk \<times> play_error) list"

definition new_playback :: "byte list list \<Rightarrow> bool \<Rightarrow> playback" where
  "new_playback h running =
     \<lparr>heap = h, audioQueue = [], activeSources = [], isPlaying = False,
      currentUtteranceId = None, pb_sampleRate = Some 16000, isProcessingQueue = False,
      ctx_running = running, ctx_waiters = [], callbacks = [], continuations = 0,
      playing = [], next_source = 0,
      next_chunk = 0, scheduled = [], stopped = [], dropped = []\<rparr>"

text \<open>\<open>new Int16Array(buffer)\<close> on a little-endian platform.\<close>

fun int16_le :: "byte list \<Rightarrow> int16 list" where
  "int16_le (lo # hi # rest) = word_cat hi lo # int16_le rest"
| "int16_le rest = []"

text \<open>
  The \<open>then\<close> callback of \<open>playChunkImmediately\<close> from the validation to the filled
  \<open>Float32Array\<close>, on the bytes the view shows when the callback runs.  The \<open>slice\<close> calls
  copy these bytes into buffers that nothing else refers to; the samples are computed
  from the copies at once.  Every sample is a 16-bit integer divided by 32768, so the
  check for values that are not finite never rejects.
\<close>

definition decode_bytes :: "js_number \<Rightarrow> byte list \<Rightarrow> play_error + rat list" where
  "decode_bytes rate audioData =
     (if length audioData = 0 then Inl EmptyAudio
      else case rate of
        None \<Rightarrow> Inl InvalidSampleRate
      | Some r \<Rightarrow>
          if r \<le> 0 \<or> r > 192000 then Inl InvalidSampleRate
          else
            (let processedAudioData =
                   (if length audioData mod 2 \<noteq> 0
                    then take (length audioData - 1) audioData else audioData);
                 float32Array = map playback_normalize (int16_le processedAudioData)
             in if length float32Array = 0 then Inl EmptyAfterConversion
                else Inr float32Array))"

definition decode_chunk :: "byte list list \<Rightarrow> chunk \<Rightarrow> play_error + rat list" where
  "decode_chunk h c = decode_bytes (sampleRate c) (view_bytes h (audio c))"

text \<open>The rest of the callback: create the source, track it, start it.\<close>

definition start_source :: "chunk \<Rightarrow> rat list \<Rightarrow> playback \<Rightarrow> playback" where
  "start_source c samples s =
     s\<lparr>activeSources := activeSources s @ [next_source s],
       isPlaying := True,
       playing := playing s @ [next_source s],
       next_source := Suc (next_source s),
       scheduled := scheduled s @ [(next_source s, c, samples)]\<rparr>"

text \<open>
  The \<open>while\<close> loop of \<open>processQueue\<close>, run until it suspends or ends; the first argument
  is the queue.  The loop suspends at the \<open>await\<close> of \<open>playChunkImmediately\<close>, which has
  called \<open>initAudioContext\<close>: with a running context the promise of \<open>initAudioContext\<close> is
  fulfilled and the callback is queued; with a suspended context it waits for
  \<open>resume()\<close>.
\<close>

fun processLoop :: "chunk list \<Rightarrow> playback \<Rightarrow> playback" where
  "processLoop [] s = s\<lparr>audioQueue := [], isProcessingQueue := False, isPlaying := False\<rparr>"
| "processLoop (c # rest) s =
     (if currentUtteranceId s = None
      then s\<lparr>audioQueue := c # rest, isProcessingQueue := False, isPlaying := False\<rparr>
      else if Some (utteranceId c) \<noteq> currentUtteranceId s then processLoop rest s
      else if ctx_running s
      then s\<lparr>audioQueue := rest, callbacks := callbacks s @ [c]\<rparr>
      else s\<lparr>audioQueue := rest, ctx_waiters := ctx_waiters s @ [c]\<rparr>)"

definition continue_loop :: "playback \<Rightarrow> playback" where
  "continue_loop s = processLoop (audioQueue s) s"

definition processQueue :: "playback \<Rightarrow> playback" where
  "processQueue s =
     (if isProcessingQueue s then s else continue_loop (s\<lparr>isProcessingQueue := True\<rparr>))"

definition stop :: "playback \<Rightarrow> playback" where
  "stop s =
     s\<lparr>stopped := stopped s @ activeSources s,
       activeSources := [],
       audioQueue := [],
       isPlaying := False,
       currentUtteranceId := None,
       isProcessingQueue := False\<rparr>"

text \<open>
  The comparator of the queue sort orders by utterance id (string comparison) and then
  by timestamp; \<open>Array.prototype.sort\<close> is stable.
\<close>

definition sort_queue :: "chunk list \<Rightarrow> chunk list" where
  "sort_queue q = sort_key (\<lambda>c. (utteranceId c, timestamp c)) q"

definition playChunk :: "view \<Rightarrow> js_number \<Rightarrow> string \<Rightarrow> int \<Rightarrow> playback \<Rightarrow> playback" where
  "playChunk audioData rate uid now s =
     (let s1 = (if currentUtteranceId s \<noteq> Some uid
                then (stop s)\<lparr>currentUtteranceId := Some uid, pb_sampleRate := rate\<rparr>
                else s);
          chunk = \<lparr>c_id = next_chunk s1, audio = audioData, utteranceId = uid,
                   sampleRate = rate, timestamp = now\<rparr>;
          s2 = s1\<lparr>audioQueue := sort_queue (audioQueue s1 @ [chunk]),
                  next_chunk := Suc (next_chunk s1)\<rparr>
      in if \<not> isProcessingQueue s2 then processQueue s2 else s2)"

text \<open>
  The microtask at the head of the queued callbacks: the chunk is validated and decoded,
  and either started or rejected; a rejection settles the promise its loop awaits.
\<close>

definition run_callback :: "playback \<Rightarrow> playback" where
  "run_callback s =
     (case callbacks s of
        [] \<Rightarrow> s
      | c # cs \<Rightarrow>
          (case decode_chunk (heap s) c of
             Inl err \<Rightarrow>
               s\<lparr>callbacks := cs, dropped := dropped s @ [(c, err)],
                 continuations := Suc (continuations s)\<rparr>
           | Inr samples \<Rightarrow> start_source c samples (s\<lparr>callbacks := cs\<rparr>)))"

text \<open>The microtask that continues a loop after its \<open>await\<close>.\<close>

definition run_continuation :: "playback \<Rightarrow> playback" where
  "run_continuation s =
     (if continuations s = 0 then s
      else continue_loop (s\<lparr>continuations := continuations s - 1\<rparr>))"

text \<open>
  The \<open>onended\<close> handler of a source: it removes the source from the active ones and
  resolves the promise the loop awaits.
\<close>

definition source_ended :: "nat \<Rightarrow> playback \<Rightarrow> playback" where
  "source_ended sid s =
     (if sid \<in> set (playing s)
      then s\<lparr>playing := removeAll sid (playing s),
             activeSources := remove1 sid (activeSources s),
             continuations := Suc (continuations s)\<rparr>
      else s)"

text \<open>
  The context starts running: the pending \<open>resume()\<close> promises resolve in the order of
  their calls, and the callbacks of the waiting chunks are queued in that order.
\<close>

definition context_resumed :: "playback \<Rightarrow> playback" where
  "context_resumed s =
     s\<lparr>ctx_running := True, callbacks := callbacks s @ ctx_waiters s, ctx_waiters := []\<rparr>"

text \<open>
  The pending \<open>resume()\<close> promises reject: every waiting chunk is dropped, and the promise
  its loop awaits is rejected.
\<close>

definition resume_failed :: "playback \<Rightarrow> playback" where
  "resume_failed s =
     (if ctx_running s then s
      else s\<lparr>ctx_waiters := [],
             dropped := dropped s @ map (\<lambda>c. (c, ResumeFailure)) (ctx_waiters s),
             continuations := continuations s + length (ctx_waiters s)\<rparr>)"

subsection \<open>The response-chunk handler\<close>

text \<open>
  What \<open>payload.audio\<close> can be: missing (or another falsy value), a \<open>Uint8Array\<close>, an
  \<open>ArrayBuffer\<close>, another typed array, a \<open>DataView\<close>, or something else.  Views are given
  by the bytes they show: the \<open>length\<close> of a typed array is zero exactly when it shows no
  byte, and an \<open>ArrayBuffer\<close> or a \<open>DataView\<close> has no \<open>length\<close>.
\<close>

datatype raw_audio =
  RawMissing | RawUint8Array view | RawArrayBuffer nat | RawTypedArray view | RawDataView view
  | RawOther

record chunk_payload =
  p_audio :: raw_audio
  p_sampleRate :: js_number
  p_utteranceId :: string

text \<open>\<open>new Uint8Array(typedArray)\<close> and \<open>view.buffer.slice(...)\<close> allocate a buffer holding a copy.\<close>

definition copy_view :: "view \<Rightarrow> playback \<Rightarrow> view \<times> playback" where
  "copy_view v s =
     (\<lparr>v_buffer = length (heap s), v_byteOffset = 0, v_length = length (view_bytes (heap s) v)\<rparr>,
      s\<lparr>heap := heap s @ [view_bytes (heap s) v]\<rparr>)"

text \<open>\<open>new Uint8Array(arrayBuffer)\<close> is a view of the whole buffer, not a copy.\<close>

definition whole_buffer :: "nat \<Rightarrow> playback \<Rightarrow> view" where
  "whole_buffer a s =
     \<lparr>v_buffer = a, v_byteOffset = 0,
      v_length = (if a < length (heap s) then length (heap s ! a) else 0)\<rparr>"

text \<open>
  The handler of \<open>voicechat.response.chunk\<close>: the sample rate is sanitised, a payload
  without audio or with audio of \<open>length\<close> zero is refused, and the audio is handed to
  \<open>playChunk\<close> as a \<open>Uint8Array\<close>.
\<close>

definition response_chunk_handler :: "chunk_payload \<Rightarrow> int \<Rightarrow> playback \<Rightarrow> playback" where
  "response_chunk_handler payload now s =
     (let rate = (case p_sampleRate payload of
                    None \<Rightarrow> Some 16000
                  | Some r \<Rightarrow> if r \<le> 0 \<or> r > 192000 then Some 16000 else Some r)
      in case p_audio payload of
           RawMissing \<Rightarrow> s
         | RawUint8Array rawAudio \<Rightarrow>
             if v_length rawAudio = 0 then s
             else (case copy_view rawAudio s of
                     (audioData, s1) \<Rightarrow> playChunk audioData rate (p_utteranceId payload) now s1)
         | RawArrayBuffer rawAudio \<Rightarrow>
             playChunk (whole_buffer rawAudio s) rate (p_utteranceId payload) now s
         | RawTypedArray rawAudio \<Rightarrow>
             if v_length rawAudio = 0 then s
             else (case copy_view rawAudio s of
                     (audioData, s1) \<Rightarrow> playChunk audioData rate (p_utteranceId payload) now s1)
         | RawDataView rawAudio \<Rightarrow>
             (case copy_view rawAudio s of
                (audioData, s1) \<Rightarrow> playChunk audioData rate (p_utteranceId payload) now s1)
         | RawOther \<Rightarrow> s)"

subsection \<open>Events\<close>

text \<open>
  What can happen to the sequencer: a call of \<open>playChunk\<close>, of \<open>stop\<close> or of the
  response-chunk handler; the \<open>ended\<close> event of a source; the audio context starting to
  run, being suspended, or failing to resume; the microtask at the head of the queued
  callbacks, or one that continues a loop; and a store into a buffer, by whatever code
  holds a view of it.
\<close>

datatype playback_event =
  PlayChunk view js_number string int
  | Stop
  | SourceEnded nat
  | ContextResumed
  | ContextSuspended
  | ResumeFailed
  | RunCallback
  | RunContinuation
  | StoreByte nat nat byte
  | ResponseChunk chunk_payload int

fun playback_step :: "playback \<Rightarrow> playback_event \<Rightarrow> playback" where
  "playback_step s (PlayChunk audioData rate uid now) = playChunk audioData rate uid now s"
| "playback_step s Stop = stop s"
| "playback_step s (SourceEnded sid) = source_ended sid s"
| "playback_step s ContextResumed = context_resumed s"
| "playback_step s ContextSuspended = s\<lparr>ctx_running := False\<rparr>"
| "playback_step s ResumeFailed = resume_failed s"
| "playback_step s RunCallback = run_callback s"
| "playback_step s RunContinuation = run_continuation s"
| "playback_step s (StoreByte a i b) = s\<lparr>heap := store_byte a i b (heap s)\<rparr>"
| "playback_step s (ResponseChunk payload now) = response_chunk_handler payload now s"

definition playback_run :: "playback \<Rightarrow> playback_event list \<Rightarrow> playback" where
  "playback_run s evs = foldl playback_step s evs"

text \<open>An event that writes into the buffer \<open>a\<close>.\<close>

fun writes_buffer :: "nat \<Rightarrow> playback_event \<Rightarrow> bool" where
  "writes_buffer a (StoreByte a' i b) = (a' = a)"
| "writes_buffer a other = False"

text \<open>
  In a list of chunk identities, none below \<open>n\<close> comes after one that is not below \<open>n\<close>:
  the chunks created before the \<open>n\<close>-th come first.
\<close>

definition old_before_new :: "nat \<Rightarrow> nat list \<Rightarrow> bool" where
  "old_before_new n ids = sorted (map (\<lambda>i. n \<le> i) ids)"

definition scheduled_ids :: "playback \<Rightarrow> nat list" where
  "scheduled_ids s = map (\<lambda>x. c_id (fst (snd x))) (scheduled s)"

text \<open>
  Fixtures: a store of four buffers of two samples each, and the view of all four bytes
  of a buffer.
\<close>

definition pcm_heap :: "byte list list" where
  "pcm_heap = [[1, 0, 2, 0], [3, 0, 4, 0], [5, 0, 6, 0], [7, 0, 8, 0]]"

definition pcm_view :: "nat \<Rightarrow> view" where
  "pcm_view a = \<lparr>v_buffer = a, v_byteOffset = 0, v_length = 4\<rparr>"

subsection \<open>Notions used to state the sequencer's properties\<close>

text \<open>
  What holds in every state the sequencer reaches: a loop waits for \<open>resume()\<close> only
  while the context is not running; the chunks the sequencer holds or has scheduled are
  older than the next chunk to be created; a source that is still sounding is tracked
  as active or has been stopped.
\<close>

definition reach_inv :: "playback \<Rightarrow> bool" where
  "reach_inv s \<longleftrightarrow>
     (ctx_waiters s \<noteq> [] \<longrightarrow> \<not> ctx_running s) \<and>
     (\<forall>c\<in>set (audioQueue s) \<union> set (callbacks s) \<union> set (ctx_waiters s).
        c_id c < next_chunk s) \<and>
     (\<forall>x\<in>set (scheduled s). c_id (fst (snd x)) < next_chunk s) \<and>
     set (playing s) \<subseteq> set (activeSources s) \<union> set (stopped s)"

text \<open>
  The chunks scheduled after the first \<open>m\<close>, followed by the chunks whose callback is
  queued and by the chunks waiting for the context, in the order in which they are or
  will be scheduled.
\<close>

definition pending_chunks :: "nat \<Rightarrow> playback \<Rightarrow> chunk list" where
  "pending_chunks m s =
     drop m (map (\<lambda>x. fst (snd x)) (scheduled s)) @ callbacks s @ ctx_waiters s"

text \<open>
  What holds after the \<open>n\<close>-th chunk has superseded an utterance, \<open>m\<close> chunks having been
  scheduled before and the chunks in \<open>W\<close> being those for which \<open>playChunkImmediately\<close> had
  been called and no source started: the queue holds no older chunk, no older chunk is
  or will be scheduled after a newer one, and an older chunk that is or will be scheduled
  is one of \<open>W\<close>.
\<close>

definition preempt_inv :: "nat \<Rightarrow> nat \<Rightarrow> chunk set \<Rightarrow> playback \<Rightarrow> bool" where
  "preempt_inv n m W s \<longleftrightarrow>
     n \<le> next_chunk s \<and> m \<le> length (scheduled s) \<and>
     (\<forall>c\<in>set (audioQueue s). n \<le> c_id c) \<and>
     (ctx_waiters s \<noteq> [] \<longrightarrow> \<not> ctx_running s) \<and>
     old_before_new n (map c_id (pending_chunks m s)) \<and>
     (\<forall>c\<in>set (pending_chunks m s). c_id c < n \<longrightarrow> c \<in> W)"

text \<open>
  The buffer \<open>a\<close> holds the bytes \<open>bs\<close>, the chunk \<open>c0\<close> views all of it and is the only
  chunk with its identity: wherever that identity occurs, it is \<open>c0\<close>, and where it was
  scheduled, the samples are those decoded from \<open>bs\<close>.
\<close>

definition copy_inv :: "nat \<Rightarrow> byte list \<Rightarrow> chunk \<Rightarrow> playback \<Rightarrow> bool" where
  "copy_inv a bs c0 s \<longleftrightarrow>
     a < length (heap s) \<and> heap s ! a = bs \<and> c_id c0 < next_chunk s \<and>
     audio c0 = \<lparr>v_buffer = a, v_byteOffset = 0, v_length = length bs\<rparr> \<and>
     (\<forall>c\<in>set (audioQueue s) \<union> set (callbacks s) \<union> set (ctx_waiters s).
        c_id c = c_id c0 \<longrightarrow> c = c0) \<and>
     (\<forall>x\<in>set (scheduled s). c_id (fst (snd x)) = c_id c0 \<longrightarrow>
        fst (snd x) = c0 \<and> decode_bytes (sampleRate c0) bs = Inr (snd (snd x)))"

text \<open>
  The two halves of \<open>playChunk\<close> before the call of \<open>processQueue\<close>: superseding the
  active utterance, and appending the new chunk to the queue.
\<close>

definition adopt :: "js_number \<Rightarrow> string \<Rightarrow> playback \<Rightarrow> playback" where
  "adopt rate uid s =
     (if currentUtteranceId s \<noteq> Some uid
      then (stop s)\<lparr>currentUtteranceId := Some uid, pb_sampleRate := rate\<rparr> else s)"

definition enqueue :: "view \<Rightarrow> js_number \<Rightarrow> string \<Rightarrow> int \<Rightarrow> playback \<Rightarrow> playback" where
  "enqueue v rate uid now s1 =
     s1\<lparr>audioQueue := sort_queue (audioQueue s1 @
            [\<lparr>c_id = next_chunk s1, audio = v, utteranceId = uid,
                   sampleRate = rate, timestamp = now\<rparr>]),
        next_chunk := Suc (next_chunk s1)\<rparr>"
section \<open>Properties of the sample conversion\<close>

lemma sint16_bounds: "- 32768 \<le> sint (v::int16) \<and> sint v \<le> 32767"
  using sint_ge[of v] sint_lt[of v] by simp

lemma js_round_of_int: "js_round (of_int n) = n"
  unfolding js_round_def by linarith

lemma clamp_unit:
  assumes "- 32768 \<le> (n::int)" "n \<le> 32767"
  shows "max (- 1) (min 1 (of_int n / (32768::rat))) = of_int n / 32768"
proof -
  have "(of_int n :: rat) \<le> 32767"
    using assms(2) by (metis of_int_le_iff of_int_numeral)
  moreover have "- 32768 \<le> (of_int n :: rat)"
    using assms(1) by (metis of_int_le_iff of_int_numeral of_int_minus)
  ultimately show ?thesis
    by (simp add: max_def min_def field_simps)
qed

lemma playback_normalize_eq: "playback_normalize v = of_int (sint v) / 32768"
  unfolding playback_normalize_def Let_def
  using clamp_unit[of "sint v"] sint16_bounds[of v] by (simp del: of_int_sint)

text \<open>
  Normalised samples are integers over \<open>2 ^ 15\<close> with at most 16 significant bits: a
  \<open>Float32Array\<close> element (24-bit significand) and a double hold them exactly.
\<close>

lemma playback_normalize_dyadic:
  "\<exists>m::int. \<bar>m\<bar> \<le> 2 ^ 15 \<and> playback_normalize v = of_int m / 2 ^ 15"
proof -
  have "\<bar>sint v\<bar> \<le> 2 ^ 15"
    using sint_ge[of v] sint_lt[of v] by simp
  moreover have "playback_normalize v = of_int (sint v) / 2 ^ 15"
    by (simp add: playback_normalize_eq del: of_int_sint)
  ultimately show ?thesis by blast
qed

lemma capture_of_normalized:
  assumes "- 32768 \<le> (n::int)" "n \<le> 32767"
  shows "capture_convert (of_int n / 32768) = word_of_int n"
proof -
  have s: "sint (word_of_int n :: int16) = n"
    using assms by (simp add: signed_take_bit_int_eq_self_iff sint_sbintrunc')
  show ?thesis
    unfolding capture_convert_def Let_def clamp_unit[OF assms]
    using assms by (simp add: js_round_of_int s max_def min_def)
qed

text \<open>
  Claim C10.  For every signed 16-bit sample \<open>v\<close>, the playback normalization followed by
  the capture conversion gives \<open>v\<close> back: the Int16 to Float32 to Int16 round trip is the
  identity.
\<close>

theorem pcm_round_trip: "capture_convert (playback_normalize v) = v"
  unfolding playback_normalize_eq
  using capture_of_normalized[of "sint v"] sint16_bounds[of v] by simp

section \<open>Properties of the handler registry\<close>

lemma first_found_Cons:
  "first_found (x # xs) = (case x of None \<Rightarrow> first_found xs | Some y \<Rightarrow> Some y)"
  by (cases x) simp_all

lemma invoke_calls: "snd (invoke run h et) = [h]"
  by (simp add: invoke_def split: option.splits)

lemma route_try_calls:
  "snd (route_try run reg et) = (case lookup_order reg et of None \<Rightarrow> [] | Some h \<Rightarrow> [h])"
  by (auto simp: route_try_def lookup_order_def getErrorHandler_def getHandler_def
      invoke_calls Let_def first_found_Cons split: option.splits)

lemma routeMessage_invoked: "invoked (routeMessage run reg et) = snd (route_try run reg et)"
  by (simp add: routeMessage_def split: prod.splits sum.splits)

lemma route_try_errorHandlers_irrelevant:
  "\<not> endsWith et ''.error'' \<Longrightarrow>
     route_try run (reg\<lparr>errorHandlers := eh\<rparr>) et = route_try run reg et"
  by (simp add: route_try_def getHandler_def Let_def)

text \<open>
  Claim C5, as stated, fails: with a primary handler \<open>1\<close> under \<open>voicechat.audio.error\<close> and
  an error handler \<open>2\<close> under \<open>voicechat.audio\<close>, the order of the claim selects handler
  \<open>1\<close>, and \<open>routeMessage\<close> invokes handler \<open>2\<close>.
\<close>

theorem route_primary_first_counterexample:
  "invoked (routeMessage never_throws error_registry_example ''voicechat.audio.error'') = [2] \<and>
   claimed_lookup error_registry_example ''voicechat.audio.error'' = Some 1"
  by (simp add: routeMessage_def route_try_def error_registry_example_def registerHandler_def
      registerErrorHandler_def empty_registry_def getErrorHandler_def getHandler_def endsWith_def
      strip_error_suffix_def invoke_def never_throws_def claimed_lookup_def)

text \<open>
  Claim C5, amended.  For an event type that ends in \<open>.error\<close> the registry consults, in
  this order, the error registry under the full event type, the error registry under the
  event type with the suffix stripped, the primary map under the wildcard key \<open>error\<close>,
  and the primary map under the full event type; the first handler found is the one
  invoked, and no other.  For any other event type only the primary map is consulted:
  the error registry has no influence on the result.
\<close>

theorem route_lookup_order:
  "invoked (routeMessage run reg eventType) =
     (case lookup_order reg eventType of None \<Rightarrow> [] | Some h \<Rightarrow> [h]) \<and>
   (\<not> endsWith eventType ''.error'' \<longrightarrow>
      lookup_order reg eventType = handlers reg eventType \<and>
      routeMessage run (reg\<lparr>errorHandlers := eh\<rparr>) eventType = routeMessage run reg eventType)"
proof -
  have "invoked (routeMessage run reg eventType) =
     (case lookup_order reg eventType of None \<Rightarrow> [] | Some h \<Rightarrow> [h])"
    by (simp only: routeMessage_invoked route_try_calls)
  moreover have "\<not> endsWith eventType ''.error'' \<longrightarrow>
      lookup_order reg eventType = handlers reg eventType \<and>
      routeMessage run (reg\<lparr>errorHandlers := eh\<rparr>) eventType = routeMessage run reg eventType"
    by (simp add: routeMessage_def route_try_errorHandlers_irrelevant lookup_order_def)
  ultimately show ?thesis by blast
qed

theorem route_lookup_order_witness:
  "\<not> endsWith ''voicechat.response.chunk'' ''.error'' \<and>
   invoked (routeMessage never_throws chunk_registry_example ''voicechat.response.chunk'') = [7] \<and>
   routeMessage never_throws
      (chunk_registry_example\<lparr>errorHandlers := errorHandlers error_registry_example\<rparr>)
      ''voicechat.response.chunk'' =
   routeMessage never_throws chunk_registry_example ''voicechat.response.chunk''"
  using route_lookup_order [of never_throws chunk_registry_example
      "''voicechat.response.chunk''" "errorHandlers error_registry_example"]
  by (simp add: endsWith_def lookup_order_def registerHandler_def chunk_registry_example_def
      empty_registry_def)




section \<open>Properties of the request tracker\<close>

lemma delete_filter: "AList.delete k xs = filter (\<lambda>e. fst e \<noteq> k) xs"
  by (induction xs) auto

lemma filter_key_Some:
  "distinct (map fst xs) \<Longrightarrow> map_of xs k = Some v \<Longrightarrow> filter (\<lambda>e. fst e = k) xs = [(k, v)]"
proof (induction xs)
  case Nil then show ?case by simp
next
  case (Cons x xs)
  show ?case
  proof (cases "fst x = k")
    case True
    with Cons.prems have "x = (k, v)" by (cases x) auto
    moreover have "filter (\<lambda>e. fst e = k) xs = []"
      using Cons.prems True by (auto simp: filter_empty_conv image_iff)
    ultimately show ?thesis by simp
  next
    case False
    with Cons show ?thesis by (cases x) auto
  qed
qed

lemma filter_key_None:
  "map_of xs k = None \<Longrightarrow> filter (\<lambda>e. fst e = k) xs = []"
  by (auto simp: filter_empty_conv map_of_eq_None_iff image_iff)

lemma filter_key_None_id:
  "map_of xs k = None \<Longrightarrow> filter (\<lambda>e. fst e \<noteq> k) xs = xs"
  by (auto simp: filter_id_conv map_of_eq_None_iff image_iff)

lemma map_of_filter_keys:
  "map_of (filter (\<lambda>x. Q (fst x)) xs) k = (if Q k then map_of xs k else None)"
  by (induction xs) auto

lemma map_of_filter_distinct:
  "distinct (map fst xs) \<Longrightarrow> (k, v) \<in> set xs \<Longrightarrow> Q (k, v) \<Longrightarrow> map_of (filter Q xs) k = Some v"
  by (rule map_of_is_SomeI) (auto simp: distinct_map_filter)

lemma map_of_filter_None:
  "map_of xs k = None \<Longrightarrow> map_of (filter Q xs) k = None"
  by (auto simp: map_of_eq_None_iff)

lemma distinct_drop_concat:
  "distinct (concat (map F xs) @ zs) \<Longrightarrow>
   (\<forall>e\<in>set xs. P e \<longrightarrow> distinct (G e) \<and> set (G e) \<subseteq> set (F e)) \<Longrightarrow>
   distinct (concat (map F (filter (\<lambda>e. \<not> P e) xs)) @ zs @ concat (map G (filter P xs)))"
proof (induction xs arbitrary: zs)
  case Nil then show ?case by simp
next
  case (Cons x xs)
  have d: "distinct (concat (map F xs) @ zs)" using Cons.prems(1) by auto
  have h: "\<forall>e\<in>set xs. P e \<longrightarrow> distinct (G e) \<and> set (G e) \<subseteq> set (F e)" using Cons.prems(2) by auto
  show ?case
  proof (cases "P x")
    case True
    have g: "distinct (G x)" "set (G x) \<subseteq> set (F x)" using Cons.prems(2) True by auto
    have "distinct (concat (map F xs) @ (zs @ G x))"
      using Cons.prems(1) g by auto
    from Cons.IH[OF this h] show ?thesis using True by simp
  next
    case False
    have ih: "distinct (concat (map F (filter (\<lambda>e. \<not> P e) xs)) @ zs @ concat (map G (filter P xs)))"
      using Cons.IH[OF d h] .
    have sub: "set (concat (map F (filter (\<lambda>e. \<not> P e) xs)) @ zs @ concat (map G (filter P xs)))
        \<subseteq> set (concat (map F xs) @ zs)"
      using h by auto
    have fx: "distinct (F x)" "set (F x) \<inter> set (concat (map F xs) @ zs) = {}"
      using Cons.prems(1) by auto
    have "set (F x) \<inter>
        set (concat (map F (filter (\<lambda>e. \<not> P e) xs)) @ zs @ concat (map G (filter P xs))) = {}"
      using fx(2) sub by blast
    with ih fx(1) have "distinct (F x @
        (concat (map F (filter (\<lambda>e. \<not> P e) xs)) @ zs @ concat (map G (filter P xs))))"
      by (simp only: distinct_append)
    with False show ?thesis by simp
  qed
qed

lemma entry_timer_inj:
  assumes "distinct (map fst (pendingRequests s))"
    and "e \<in> set (pendingRequests s)" "e' \<in> set (pendingRequests s)"
    and "entry_ok s e" "entry_ok s e'"
    and "r_timeout (snd e) = r_timeout (snd e')"
  shows "e = e'"
proof -
  have "fst e = fst e'"
    using assms(4,5,6) by (auto simp: entry_ok_def split: option.splits)
  then show ?thesis
    using assms(1,2,3) by (metis eq_key_imp_eq_value prod.collapse)
qed

lemma drop_requests_inv:
  assumes inv: "tracker_inv s"
    and g: "\<forall>e\<in>set (pendingRequests s). P e \<longrightarrow>
              distinct (map fst (g e)) \<and> set (map fst (g e)) \<subseteq> set (r_resolve (snd e))"
  shows "tracker_inv (drop_requests P g s)"
proof -
  let ?s' = "drop_requests P g s"
  let ?T = "(\<lambda>e. r_timeout (snd e)) ` set (filter P (pendingRequests s))"
  have dk: "distinct (map fst (pendingRequests s))" and dt: "distinct (map fst (timers s))"
    and eo: "\<forall>e\<in>set (pendingRequests s). entry_ok s e"
    and tok: "\<forall>x\<in>set (timers s). timer_ok s x"
    and df: "distinct (pending_futures s @ map fst (settled s))"
    and bd: "\<forall>f\<in>set (pending_futures s @ map fst (settled s)). f < next_future s"
    using inv by (auto simp: tracker_inv_def list_all_iff)
  have 1: "distinct (map fst (pendingRequests ?s'))"
    using dk by (simp add: drop_requests_def distinct_map_filter)
  have 2: "distinct (map fst (timers ?s'))"
    using dt by (simp add: drop_requests_def distinct_map_filter)
  have 3: "entry_ok ?s' e" if e: "e \<in> set (pendingRequests ?s')" for e
  proof -
    have ein: "e \<in> set (pendingRequests s)" and np: "\<not> P e"
      using e by (auto simp: drop_requests_def)
    have ok: "entry_ok s e" using eo ein by blast
    have "r_timeout (snd e) \<notin> ?T"
    proof
      assume "r_timeout (snd e) \<in> ?T"
      then obtain e' where e': "e' \<in> set (pendingRequests s)" "P e'"
        "r_timeout (snd e) = r_timeout (snd e')" by auto
      have "e = e'" using entry_timer_inj[OF dk ein e'(1) ok _ e'(3)] eo e'(1) by blast
      with np e'(2) show False by simp
    qed
    moreover have "timers ?s' = filter (\<lambda>x. fst x \<notin> ?T) (timers s)"
      by (simp add: drop_requests_def)
    ultimately have "map_of (timers ?s') (r_timeout (snd e)) = map_of (timers s) (r_timeout (snd e))"
      by (simp only: map_of_filter_keys[of "\<lambda>k. k \<notin> ?T"] if_True not_False_eq_True)
    with ok show ?thesis by (simp add: entry_ok_def)
  qed
  have 4: "timer_ok ?s' x" if x: "x \<in> set (timers ?s')" for x
  proof -
    have xin: "x \<in> set (timers s)" and nt: "fst x \<notin> ?T"
      using x by (auto simp: drop_requests_def)
    have ok: "timer_ok s x" using tok xin by blast
    then obtain r where r: "map_of (pendingRequests s) (t_eventId (snd x)) = Some r"
      "r_timeout r = fst x" "fst x < next_timer s"
      by (auto simp: timer_ok_def split: option.splits)
    have rin: "(t_eventId (snd x), r) \<in> set (pendingRequests s)"
      using r(1) by (rule map_of_SomeD)
    have "\<not> P (t_eventId (snd x), r)"
      using nt rin r(2) by force
    then have "map_of (filter (\<lambda>e. \<not> P e) (pendingRequests s)) (t_eventId (snd x)) = Some r"
      using map_of_filter_distinct[OF dk rin, of "\<lambda>e. \<not> P e"] by simp
    with r show ?thesis by (simp add: timer_ok_def drop_requests_def)
  qed
  have g': "\<forall>e\<in>set (pendingRequests s). P e \<longrightarrow>
      distinct (map fst (g e)) \<and> set (map fst (g e)) \<subseteq> set (r_resolve (snd e))"
    using g by simp
  have 5: "distinct (pending_futures ?s' @ map fst (settled ?s'))"
    using distinct_drop_concat[of "\<lambda>e. r_resolve (snd e)" "pendingRequests s"
        "map fst (settled s)" P "\<lambda>e. map fst (g e)"] df g'
    by (simp add: pending_futures_def drop_requests_def map_concat comp_def)
  have sub: "f \<in> set (pending_futures s @ map fst (settled s))"
    if "f \<in> set (pending_futures ?s' @ map fst (settled ?s'))" for f
    using that g' by (auto simp: pending_futures_def drop_requests_def) (force)+
  have 6: "\<forall>f\<in>set (pending_futures ?s' @ map fst (settled ?s')). f < next_future ?s'"
  proof
    fix f assume "f \<in> set (pending_futures ?s' @ map fst (settled ?s'))"
    then have "f \<in> set (pending_futures s @ map fst (settled s))" by (rule sub)
    then show "f < next_future ?s'" using bd by (simp add: drop_requests_def)
  qed
  have 7: "distinct (map snd (wraps ?s'))"
    using inv by (simp add: tracker_inv_def drop_requests_def)
  have 8: "\<forall>p\<in>set (map snd (wraps ?s')). p < next_future ?s' \<and>
      p \<notin> set (pending_futures ?s') \<and> p \<notin> fst ` set (settled ?s')"
  proof
    fix p assume "p \<in> set (map snd (wraps ?s'))"
    then have "p \<in> set (map snd (wraps s))" by (simp add: drop_requests_def)
    then have p: "p < next_future s" "p \<notin> set (pending_futures s @ map fst (settled s))"
      using inv by (auto simp: tracker_inv_def list_all_iff)
    have "p \<notin> set (pending_futures ?s' @ map fst (settled ?s'))" using p(2) sub by blast
    then have "p \<notin> set (pending_futures ?s') \<and> p \<notin> fst ` set (settled ?s')" by simp
    moreover have "p < next_future ?s'" using p(1) by (simp add: drop_requests_def)
    ultimately show "p < next_future ?s' \<and>
      p \<notin> set (pending_futures ?s') \<and> p \<notin> fst ` set (settled ?s')"
      by blast
  qed
  show ?thesis
    unfolding tracker_inv_def list_all_iff using 1 2 3 4 5 6 7 8 by blast
qed

lemma filter_filter_same: "filter Q (filter Q xs) = filter Q xs"
  by (induction xs) auto

lemma remove_one:
  assumes "distinct (map fst (pendingRequests s))" and "map_of (pendingRequests s) k = Some r"
  shows "delete_request k (settle fs out (clearTimeout (r_timeout r) s)) =
           drop_requests (\<lambda>e. fst e = k) (\<lambda>e. map (\<lambda>f. (f, out)) fs) s"
    and "settle fs out (delete_request k (clearTimeout (r_timeout r) s)) =
           drop_requests (\<lambda>e. fst e = k) (\<lambda>e. map (\<lambda>f. (f, out)) fs) s"
  using filter_key_Some[OF assms]
  by (simp_all add: delete_request_def settle_def clearTimeout_def drop_requests_def delete_filter)

lemma cancelRequest_drop:
  assumes "distinct (map fst (pendingRequests s))"
  shows "cancelRequest eid s = drop_requests (\<lambda>e. fst e = eid) (reject_all RequestCancelled) s"
proof (cases "map_of (pendingRequests s) eid")
  case None
  then show ?thesis
    by (simp add: cancelRequest_def drop_requests_def filter_key_None filter_key_None_id)
next
  case (Some r)
  have "drop_requests (\<lambda>e. fst e = eid) (reject_all RequestCancelled) s =
        drop_requests (\<lambda>e. fst e = eid) (\<lambda>e. map (\<lambda>f. (f, Rejected RequestCancelled)) (r_reject r)) s"
    using filter_key_Some[OF assms Some] by (simp add: drop_requests_def reject_all_def)
  then show ?thesis
    using Some remove_one(1)[OF assms Some] by (simp add: cancelRequest_def)
qed

lemma matchAck_drop:
  assumes "distinct (map fst (pendingRequests s))"
  shows "snd (matchAck eid ack s) =
     drop_requests (\<lambda>e. fst e = eid) (\<lambda>e. map (\<lambda>f. (f, Resolved ack)) (r_resolve (snd e))) s"
proof (cases "map_of (pendingRequests s) eid")
  case None
  then show ?thesis
    by (simp add: matchAck_def drop_requests_def filter_key_None filter_key_None_id)
next
  case (Some r)
  have "drop_requests (\<lambda>e. fst e = eid) (\<lambda>e. map (\<lambda>f. (f, Resolved ack)) (r_resolve (snd e))) s =
        drop_requests (\<lambda>e. fst e = eid) (\<lambda>e. map (\<lambda>f. (f, Resolved ack)) (r_resolve r)) s"
    using filter_key_Some[OF assms Some] by (simp add: drop_requests_def)
  then show ?thesis
    using Some remove_one(2)[OF assms Some] by (simp add: matchAck_def)
qed

lemma sort_key_hd_in:
  "sort_key f xs = y # ys \<Longrightarrow> y \<in> set xs"
  by (metis list.set_intros(1) set_sort)

lemma evict_oldest_drop:
  assumes "distinct (map fst (pendingRequests s))"
    and "sort_key (\<lambda>entry. r_timestamp (snd entry)) (pendingRequests s) = oldest # rest"
  shows "evict_oldest s = drop_requests (\<lambda>e. fst e = fst oldest) (reject_all TrackerLimit) s"
proof -
  have "oldest \<in> set (pendingRequests s)" using assms(2) by (rule sort_key_hd_in)
  then have m: "map_of (pendingRequests s) (fst oldest) = Some (snd oldest)"
    using assms(1) by (metis map_of_is_SomeI prod.collapse)
  have "drop_requests (\<lambda>e. fst e = fst oldest) (reject_all TrackerLimit) s =
        drop_requests (\<lambda>e. fst e = fst oldest) (\<lambda>e. map (\<lambda>f. (f, Rejected TrackerLimit)) (r_reject (snd oldest))) s"
    using filter_key_Some[OF assms(1) m] by (simp add: drop_requests_def reject_all_def)
  then show ?thesis
    using assms(2) remove_one(1)[OF assms(1) m] by (simp add: evict_oldest_def)
qed

lemma fold_clear_entry:
  "fold clear_entry es s =
     s\<lparr>timers := filter (\<lambda>x. fst x \<notin> (\<lambda>e. r_timeout (snd e)) ` set es) (timers s),
       settled := settled s @ concat (map (reject_all TrackerCleared) es)\<rparr>"
proof (induction es arbitrary: s)
  case Nil then show ?case by simp
next
  case (Cons e es)
  have "fold clear_entry (e # es) s = fold clear_entry es (clear_entry e s)" by simp
  also have "\<dots> = (clear_entry e s)
     \<lparr>timers := filter (\<lambda>x. fst x \<notin> (\<lambda>e. r_timeout (snd e)) ` set es) (timers (clear_entry e s)),
       settled := settled (clear_entry e s) @ concat (map (reject_all TrackerCleared) es)\<rparr>"
    by (rule Cons.IH)
  also have "\<dots> = s\<lparr>timers := filter (\<lambda>x. fst x \<notin> (\<lambda>e. r_timeout (snd e)) ` set (e # es)) (timers s),
       settled := settled s @ concat (map (reject_all TrackerCleared) (e # es))\<rparr>"
    by (simp add: clear_entry_def settle_def clearTimeout_def delete_filter reject_all_def
        conj_commute)
  finally show ?case .
qed

lemma clear_drop: "clear s = drop_requests (\<lambda>e. True) (reject_all TrackerCleared) s"
  by (simp add: clear_def fold_clear_entry drop_requests_def)

lemma fold_cleanup_entry:
  "fold (cleanup_entry now m) es s =
     s\<lparr>pendingRequests :=
         filter (\<lambda>e. fst e \<notin> fst ` set (filter (\<lambda>e. now - r_timestamp (snd e) > m) es))
           (pendingRequests s),
       timers := filter (\<lambda>x. fst x \<notin> (\<lambda>e. r_timeout (snd e)) `
                     set (filter (\<lambda>e. now - r_timestamp (snd e) > m) es)) (timers s),
       settled := settled s @
          concat (map (reject_all RequestCleanup) (filter (\<lambda>e. now - r_timestamp (snd e) > m) es))\<rparr>"
proof (induction es arbitrary: s)
  case Nil then show ?case by simp
next
  case (Cons e es)
  let ?old = "\<lambda>e. now - r_timestamp (snd e) > m"
  have "fold (cleanup_entry now m) (e # es) s =
        fold (cleanup_entry now m) es (cleanup_entry now m e s)" by simp
  also have "\<dots> = (cleanup_entry now m e s)
     \<lparr>pendingRequests := filter (\<lambda>e. fst e \<notin> fst ` set (filter ?old es))
           (pendingRequests (cleanup_entry now m e s)),
       timers := filter (\<lambda>x. fst x \<notin> (\<lambda>e. r_timeout (snd e)) ` set (filter ?old es))
           (timers (cleanup_entry now m e s)),
       settled := settled (cleanup_entry now m e s) @
          concat (map (reject_all RequestCleanup) (filter ?old es))\<rparr>"
    by (rule Cons.IH)
  also have "\<dots> = s
     \<lparr>pendingRequests := filter (\<lambda>y. fst y \<notin> fst ` set (filter ?old (e # es))) (pendingRequests s),
       timers := filter (\<lambda>x. fst x \<notin> (\<lambda>e. r_timeout (snd e)) ` set (filter ?old (e # es))) (timers s),
       settled := settled s @ concat (map (reject_all RequestCleanup) (filter ?old (e # es)))\<rparr>"
    by (cases e)
       (simp add: cleanup_entry_def settle_def clearTimeout_def delete_request_def delete_filter
         reject_all_def conj_commute)
  finally show ?case .
qed

lemma filter_keys_of_selected:
  assumes "distinct (map fst xs)"
  shows "filter (\<lambda>e. fst e \<notin> fst ` set (filter Q xs)) xs = filter (\<lambda>e. \<not> Q e) xs"
proof (rule filter_cong[OF refl])
  fix e assume e: "e \<in> set xs"
  have "fst e \<in> fst ` set (filter Q xs) \<longleftrightarrow> Q e"
  proof
    assume "fst e \<in> fst ` set (filter Q xs)"
    then obtain e' where e': "e' \<in> set xs" "Q e'" "fst e' = fst e" by auto
    then have "e' = e" using assms e by (metis eq_key_imp_eq_value prod.collapse)
    with e'(2) show "Q e" by simp
  next
    assume "Q e" with e show "fst e \<in> fst ` set (filter Q xs)" by auto
  qed
  then show "(fst e \<notin> fst ` set (filter Q xs)) = (\<not> Q e)" by simp
qed

lemma cleanupOldRequests_drop:
  assumes "distinct (map fst (pendingRequests s))"
  shows "cleanupOldRequests now s =
     drop_requests (\<lambda>e. now - r_timestamp (snd e) > defaultTimeout s * 2)
       (reject_all RequestCleanup) s"
  unfolding cleanupOldRequests_def Let_def fold_cleanup_entry drop_requests_def
  by (simp only: filter_keys_of_selected[OF assms])

lemma timeout_fired_drop:
  assumes inv: "tracker_inv s" and t: "map_of (timers s) tid = Some t"
  shows "timeout_fired tid s =
     drop_requests (\<lambda>e. fst e = t_eventId t) (\<lambda>e. [(t_reject t, Rejected RequestTimeout)]) s"
proof -
  have dk: "distinct (map fst (pendingRequests s))"
    using inv by (simp add: tracker_inv_def)
  have "(tid, t) \<in> set (timers s)" using t by (rule map_of_SomeD)
  then have "timer_ok s (tid, t)" using inv by (auto simp: tracker_inv_def list_all_iff)
  then obtain r where r: "map_of (pendingRequests s) (t_eventId t) = Some r" "r_timeout r = tid"
    by (auto simp: timer_ok_def split: option.splits)
  have "timeout_fired tid s =
      settle [t_reject t] (Rejected RequestTimeout)
        (delete_request (t_eventId t) (clearTimeout (r_timeout r) (clearTimeout tid s)))"
    using t r by (simp add: timeout_fired_def handleTimeout_def clearTimeout_def)
  also have "clearTimeout (r_timeout r) (clearTimeout tid s) = clearTimeout (r_timeout r) s"
    using r(2) by (simp add: clearTimeout_def delete_filter)
  finally show ?thesis
    using remove_one(2)[OF dk r(1), of "[t_reject t]" "Rejected RequestTimeout"] by simp
qed

lemma tracker_inv_parts:
  assumes "tracker_inv s"
  shows "distinct (map fst (pendingRequests s))" "distinct (map fst (timers s))"
    "\<And>e. e \<in> set (pendingRequests s) \<Longrightarrow> entry_ok s e"
    "\<And>x. x \<in> set (timers s) \<Longrightarrow> timer_ok s x"
    "distinct (pending_futures s @ map fst (settled s))"
    "\<And>f. f \<in> set (pending_futures s) \<union> fst ` set (settled s) \<Longrightarrow> f < next_future s"
    "distinct (map snd (wraps s))"
    "\<And>p. p \<in> snd ` set (wraps s) \<Longrightarrow>
       p < next_future s \<and> p \<notin> set (pending_futures s) \<and> p \<notin> fst ` set (settled s)"
  using assms by (auto simp: tracker_inv_def list_all_iff)

lemma distinct_concat_member:
  "distinct (concat xss) \<Longrightarrow> xs \<in> set xss \<Longrightarrow> distinct xs"
  by (induction xss) auto

lemma entry_futures_distinct:
  assumes "tracker_inv s" "e \<in> set (pendingRequests s)"
  shows "distinct (r_resolve (snd e))" "r_reject (snd e) = r_resolve (snd e)"
proof -
  have "distinct (pending_futures s)" using tracker_inv_parts(5)[OF assms(1)] by simp
  then show "distinct (r_resolve (snd e))"
    using assms(2) unfolding pending_futures_def
    by (auto intro: distinct_concat_member)
  show "r_reject (snd e) = r_resolve (snd e)"
    using tracker_inv_parts(3)[OF assms] by (simp add: entry_ok_def)
qed

lemma inv_cancelRequest: "tracker_inv s \<Longrightarrow> tracker_inv (cancelRequest eid s)"
  using entry_futures_distinct[of s]
  by (simp add: cancelRequest_drop tracker_inv_parts(1))
     (rule drop_requests_inv, auto simp: reject_all_def comp_def)

lemma inv_matchAck: "tracker_inv s \<Longrightarrow> tracker_inv (snd (matchAck eid ack s))"
  using entry_futures_distinct[of s]
  by (simp add: matchAck_drop tracker_inv_parts(1))
     (rule drop_requests_inv, auto simp: comp_def)

lemma inv_clear: "tracker_inv s \<Longrightarrow> tracker_inv (clear s)"
  using entry_futures_distinct[of s]
  by (simp add: clear_drop)
     (rule drop_requests_inv, auto simp: reject_all_def comp_def)

lemma inv_destroy: "tracker_inv s \<Longrightarrow> tracker_inv (destroy s)"
proof -
  assume a: "tracker_inv s"
  have "tracker_inv (s\<lparr>cleanupTimer := False\<rparr>)"
    using a by (simp add: tracker_inv_def entry_ok_def timer_ok_def pending_futures_def list_all_iff)
  then show ?thesis unfolding destroy_def by (rule inv_clear)
qed

lemma inv_cleanupOldRequests: "tracker_inv s \<Longrightarrow> tracker_inv (cleanupOldRequests now s)"
  using entry_futures_distinct[of s]
  by (simp add: cleanupOldRequests_drop tracker_inv_parts(1))
     (rule drop_requests_inv, auto simp: reject_all_def comp_def)

lemma inv_timeout_fired: "tracker_inv s \<Longrightarrow> tracker_inv (timeout_fired tid s)"
proof (cases "map_of (timers s) tid")
  case None
  assume "tracker_inv s" with None show ?thesis by (simp add: timeout_fired_def)
next
  case (Some t)
  assume inv: "tracker_inv s"
  have "(tid, t) \<in> set (timers s)" using Some by (rule map_of_SomeD)
  then have "timer_ok s (tid, t)" using tracker_inv_parts(4)[OF inv] by blast
  then obtain r where r: "map_of (pendingRequests s) (t_eventId t) = Some r" "r_timeout r = tid"
    by (auto simp: timer_ok_def split: option.splits)
  have rin: "(t_eventId t, r) \<in> set (pendingRequests s)" using r(1) by (rule map_of_SomeD)
  have "entry_ok s (t_eventId t, r)" using tracker_inv_parts(3)[OF inv rin] .
  then have tr: "t_reject t \<in> set (r_resolve r)"
    using Some r(2) by (simp add: entry_ok_def)
  have "\<forall>e\<in>set (pendingRequests s). fst e = t_eventId t \<longrightarrow>
      distinct (map fst [(t_reject t, Rejected RequestTimeout :: 'a settlement)]) \<and>
      set (map fst [(t_reject t, Rejected RequestTimeout :: 'a settlement)]) \<subseteq> set (r_resolve (snd e))"
  proof (intro ballI impI)
    fix e assume e: "e \<in> set (pendingRequests s)" "fst e = t_eventId t"
    then have "e = (t_eventId t, r)"
      using rin tracker_inv_parts(1)[OF inv] by (metis eq_key_imp_eq_value prod.collapse)
    with tr show "distinct (map fst [(t_reject t, Rejected RequestTimeout :: 'a settlement)]) \<and>
      set (map fst [(t_reject t, Rejected RequestTimeout :: 'a settlement)]) \<subseteq> set (r_resolve (snd e))"
      by simp
  qed
  then show ?thesis
    unfolding timeout_fired_drop[OF inv Some] by (rule drop_requests_inv[OF inv])
qed

lemma map_of_split:
  "map_of xs k = Some v \<Longrightarrow> \<exists>ys zs. xs = ys @ (k, v) # zs \<and> k \<notin> fst ` set ys"
proof (induction xs)
  case Nil then show ?case by simp
next
  case (Cons x xs)
  show ?case
  proof (cases "fst x = k")
    case True
    with Cons.prems have "x = (k, v)" by (cases x) auto
    then have "x # xs = [] @ (k, v) # xs \<and> k \<notin> fst ` set []" by simp
    then show ?thesis by blast
  next
    case False
    with Cons.prems have "map_of xs k = Some v" by (cases x) auto
    from Cons.IH[OF this] obtain ys zs where "xs = ys @ (k, v) # zs" "k \<notin> fst ` set ys" by blast
    with False have "x # xs = (x # ys) @ (k, v) # zs \<and> k \<notin> fst ` set (x # ys)" by auto
    then show ?thesis by blast
  qed
qed

lemma update_split:
  "k \<notin> fst ` set ys \<Longrightarrow> AList.update k v' (ys @ (k, v) # zs) = ys @ (k, v') # zs"
  by (induction ys) auto

lemma inv_wrap:
  assumes inv: "tracker_inv s" and ex: "map_of (pendingRequests s) eid = Some r"
    and w: "wraps s = (tid, p) # rest"
  shows "tracker_inv (s\<lparr>wraps := rest,
          pendingRequests :=
            AList.update eid (r\<lparr>r_resolve := r_resolve r @ [p],
                               r_reject := r_reject r @ [p]\<rparr>) (pendingRequests s)\<rparr>)"
proof -
  let ?w = "r\<lparr>r_resolve := r_resolve r @ [p], r_reject := r_reject r @ [p]\<rparr>"
  let ?s' = "s\<lparr>wraps := rest, pendingRequests := AList.update eid ?w (pendingRequests s)\<rparr>"
  obtain ys zs where sp: "pendingRequests s = ys @ (eid, r) # zs" "eid \<notin> fst ` set ys"
    using map_of_split[OF ex] by blast
  have up: "pendingRequests ?s' = ys @ (eid, ?w) # zs"
    using update_split[OF sp(2)] sp(1) by simp
  note P = tracker_inv_parts[OF inv]
  have pw: "p < next_future s" "p \<notin> set (pending_futures s)" "p \<notin> fst ` set (settled s)"
    using P(8)[of p] w by simp_all
  have pr: "p \<notin> snd ` set rest" "distinct (map snd rest)"
    using P(7) w by (simp_all add: image_iff)
  have 1: "distinct (map fst (pendingRequests ?s'))"
    using P(1) unfolding up by (simp add: sp(1))
  have 2: "distinct (map fst (timers ?s'))" using P(2) by simp
  have rok: "entry_ok s (eid, r)" using P(3) sp(1) by simp
  have 3: "entry_ok ?s' e" if "e \<in> set (pendingRequests ?s')" for e
  proof (cases "e = (eid, ?w)")
    case True
    with rok show ?thesis by (auto simp: entry_ok_def split: option.splits)
  next
    case False
    moreover have "e \<in> set (ys @ (eid, ?w) # zs)" using that unfolding up .
    ultimately have "e \<in> set (pendingRequests s)" by (auto simp: sp(1))
    then have "entry_ok s e" using P(3) by blast
    then show ?thesis by (simp add: entry_ok_def)
  qed
  have 4: "timer_ok ?s' x" if "x \<in> set (timers ?s')" for x
  proof -
    have "timer_ok s x" using that P(4) by simp
    then obtain r' where r': "map_of (pendingRequests s) (t_eventId (snd x)) = Some r'"
      "r_timeout r' = fst x" "fst x < next_timer s"
      by (auto simp: timer_ok_def split: option.splits)
    have "map_of (pendingRequests ?s') (t_eventId (snd x)) =
        (if t_eventId (snd x) = eid then Some ?w else Some r')"
      using r'(1) by (simp add: update_conv')
    moreover have "t_eventId (snd x) = eid \<Longrightarrow> r' = r" using r'(1) ex by simp
    ultimately show ?thesis using r'(2,3) by (auto simp: timer_ok_def)
  qed
  have pf: "pending_futures ?s' =
       concat (map (\<lambda>e. r_resolve (snd e)) ys) @ (r_resolve r @ [p]) @
       concat (map (\<lambda>e. r_resolve (snd e)) zs)"
    by (simp add: pending_futures_def up)
  have pf0: "pending_futures s =
       concat (map (\<lambda>e. r_resolve (snd e)) ys) @ r_resolve r @
       concat (map (\<lambda>e. r_resolve (snd e)) zs)"
    by (simp add: pending_futures_def sp(1))
  have ps: "set (pending_futures ?s') = insert p (set (pending_futures s))"
    unfolding pf pf0 by auto
  have 5: "distinct (pending_futures ?s' @ map fst (settled ?s'))"
    using P(5) pw(2,3) unfolding pf pf0 by auto
  have 6: "\<forall>f\<in>set (pending_futures ?s' @ map fst (settled ?s')). f < next_future ?s'"
    using P(6) pw(1) unfolding set_append ps by auto
  have 7: "distinct (map snd (wraps ?s'))" using pr(2) by simp
  have 8: "\<forall>q\<in>set (map snd (wraps ?s')). q < next_future ?s' \<and>
      q \<notin> set (pending_futures ?s') \<and> q \<notin> fst ` set (settled ?s')"
  proof
    fix q assume q: "q \<in> set (map snd (wraps ?s'))"
    then have qr: "q \<in> snd ` set rest" by simp
    then have "q \<in> snd ` set (wraps s)" using w by auto
    from P(8)[OF this] have q': "q < next_future s" "q \<notin> set (pending_futures s)"
      "q \<notin> fst ` set (settled s)" by simp_all
    have "q \<noteq> p" using qr pr(1) by blast
    with q' show "q < next_future ?s' \<and>
      q \<notin> set (pending_futures ?s') \<and> q \<notin> fst ` set (settled ?s')"
      unfolding ps by simp
  qed
  show ?thesis
    unfolding tracker_inv_def list_all_iff using 1 2 3 4 5 6 7 8 by blast
qed

lemma find_entry:
  assumes "distinct (map fst xs)" and "find P xs = Some (k, v)"
  shows "map_of xs k = Some v"
proof -
  have "(k, v) \<in> set xs" using assms(2) by (auto simp: find_Some_iff)
  with assms(1) show ?thesis by simp
qed

lemma inv_run_wrap: "tracker_inv s \<Longrightarrow> tracker_inv (run_wrap s)"
proof (cases "wraps s")
  case Nil
  assume "tracker_inv s" with Nil show ?thesis by (simp add: run_wrap_def)
next
  case (Cons x rest)
  assume inv: "tracker_inv s"
  obtain tid p where x: "x = (tid, p)" by (cases x)
  have w: "wraps s = (tid, p) # rest" using Cons x by simp
  show ?thesis
  proof (cases "find (\<lambda>entry. r_timeout (snd entry) = tid) (pendingRequests s)")
    case None
    have "tracker_inv (s\<lparr>wraps := rest\<rparr>)"
      using inv w
      by (auto simp: tracker_inv_def entry_ok_def timer_ok_def pending_futures_def list_all_iff)
    with None w show ?thesis by (simp add: run_wrap_def)
  next
    case (Some e)
    obtain eid r where e: "e = (eid, r)" by (cases e)
    have "map_of (pendingRequests s) eid = Some r"
      using find_entry[OF tracker_inv_parts(1)[OF inv]] Some e by blast
    from inv_wrap[OF inv this w] Some e w show ?thesis by (simp add: run_wrap_def)
  qed
qed

lemma inv_duplicate:
  assumes inv: "tracker_inv s"
  shows "tracker_inv (s\<lparr>wraps := wraps s @ [(tid, next_future s)],
                         next_future := Suc (next_future s)\<rparr>)"
proof -
  note P = tracker_inv_parts[OF inv]
  have fresh: "next_future s \<notin> set (pending_futures s) \<union> fst ` set (settled s)"
    "\<forall>a. (a, next_future s) \<notin> set (wraps s)"
    using P(6) P(8)[of "next_future s"] by force+
  show ?thesis
    using inv fresh
    by (auto simp: tracker_inv_def entry_ok_def timer_ok_def pending_futures_def list_all_iff
        less_Suc_eq)
qed

lemma inv_insert:
  assumes inv: "tracker_inv s" and fresh: "map_of (pendingRequests s) eid = None"
  shows "tracker_inv (s\<lparr>pendingRequests := pendingRequests s @
              [(eid, \<lparr>r_eventId = eid, r_eventType = etype, r_timestamp = now,
                      r_resolve = [next_future s], r_reject = [next_future s],
                      r_timeout = next_timer s\<rparr>)],
          timers := timers s @
              [(next_timer s, \<lparr>t_eventId = eid, t_eventType = etype, t_reject = next_future s,
                                t_delay = tmo\<rparr>)],
          next_timer := Suc (next_timer s),
          next_future := Suc (next_future s)\<rparr>)" (is "tracker_inv ?s'")
proof -
  note P = tracker_inv_parts[OF inv]
  let ?p = "next_future s" and ?tid = "next_timer s"
  have pfresh: "?p \<notin> set (pending_futures s) \<union> fst ` set (settled s)"
    using P(6) by blast
  have tfresh: "?tid \<notin> fst ` set (timers s)"
    using P(4) by (force simp: timer_ok_def)
  have kfresh: "eid \<notin> fst ` set (pendingRequests s)"
    using fresh by (simp add: map_of_eq_None_iff)
  have 1: "distinct (map fst (pendingRequests ?s'))" using P(1) kfresh by simp
  have 2: "distinct (map fst (timers ?s'))" using P(2) tfresh by simp
  have 3: "entry_ok ?s' e" if "e \<in> set (pendingRequests ?s')" for e
  proof (cases "e \<in> set (pendingRequests s)")
    case True
    then have ok: "entry_ok s e" using P(3) by blast
    then obtain t where "map_of (timers s) (r_timeout (snd e)) = Some t"
      by (auto simp: entry_ok_def split: option.splits)
    then have "map_of (timers ?s') (r_timeout (snd e)) = Some t"
      by (simp add: map_add_Some_iff)
    with ok \<open>map_of (timers s) (r_timeout (snd e)) = Some t\<close> show ?thesis
      by (simp add: entry_ok_def)
  next
    case False
    with that have e: "e = (eid, \<lparr>r_eventId = eid, r_eventType = etype, r_timestamp = now,
                      r_resolve = [?p], r_reject = [?p], r_timeout = ?tid\<rparr>)" by simp
    have "map_of (timers s) ?tid = None" using tfresh by (simp add: map_of_eq_None_iff)
    then show ?thesis by (simp add: e entry_ok_def map_add_def)
  qed
  have 4: "timer_ok ?s' x" if "x \<in> set (timers ?s')" for x
  proof (cases "x \<in> set (timers s)")
    case True
    then have ok: "timer_ok s x" using P(4) by blast
    then obtain r where r: "map_of (pendingRequests s) (t_eventId (snd x)) = Some r"
      by (auto simp: timer_ok_def split: option.splits)
    then have "map_of (pendingRequests ?s') (t_eventId (snd x)) = Some r"
      by (simp add: map_add_Some_iff)
    with ok r show ?thesis by (simp add: timer_ok_def)
  next
    case False
    with that have x: "x = (?tid, \<lparr>t_eventId = eid, t_eventType = etype, t_reject = ?p,
                                t_delay = tmo\<rparr>)" by simp
    show ?thesis using fresh by (simp add: x timer_ok_def map_add_def)
  qed
  have pf: "pending_futures ?s' = pending_futures s @ [?p]"
    by (simp add: pending_futures_def)
  have 5: "distinct (pending_futures ?s' @ map fst (settled ?s'))"
    using P(5) pfresh unfolding pf by auto
  have 6: "\<forall>f\<in>set (pending_futures ?s' @ map fst (settled ?s')). f < next_future ?s'"
    using P(6) unfolding pf by (auto simp: less_Suc_eq)
  have 7: "distinct (map snd (wraps ?s'))" using P(7) by simp
  have wfresh: "\<forall>a. (a, ?p) \<notin> set (wraps s)"
    using P(8)[of ?p] by force
  have 8: "\<forall>q\<in>set (map snd (wraps ?s')). q < next_future ?s' \<and>
      q \<notin> set (pending_futures ?s') \<and> q \<notin> fst ` set (settled ?s')"
    using P(8) wfresh unfolding pf by (auto simp: less_Suc_eq)
  show ?thesis
    unfolding tracker_inv_def list_all_iff using 1 2 3 4 5 6 7 8 by blast
qed

lemma inv_evict_oldest: "tracker_inv s \<Longrightarrow> tracker_inv (evict_oldest s)"
proof (cases "sort_key (\<lambda>entry. r_timestamp (snd entry)) (pendingRequests s)")
  case Nil
  assume "tracker_inv s" with Nil show ?thesis by (simp add: evict_oldest_def)
next
  case (Cons oldest rest)
  assume inv: "tracker_inv s"
  show ?thesis
    unfolding evict_oldest_drop[OF tracker_inv_parts(1)[OF inv] Cons]
    using entry_futures_distinct[OF inv]
    by (intro drop_requests_inv[OF inv]) (auto simp: reject_all_def comp_def)
qed

lemma evict_oldest_fields:
  "defaultTimeout (evict_oldest s) = defaultTimeout s"
  "maxPendingRequests (evict_oldest s) = maxPendingRequests s"
  "next_future (evict_oldest s) = next_future s"
  "next_timer (evict_oldest s) = next_timer s"
  by (simp_all add: evict_oldest_def delete_request_def settle_def clearTimeout_def
      split: list.splits)

lemma evict_oldest_fresh:
  "map_of (pendingRequests s) eid = None \<Longrightarrow> map_of (pendingRequests (evict_oldest s)) eid = None"
  by (simp add: evict_oldest_def delete_request_def settle_def clearTimeout_def delete_filter
      map_of_filter_None split: list.splits)

lemma inv_trackRequest: "tracker_inv s \<Longrightarrow> tracker_inv (snd (trackRequest eid etype tmo now s))"
proof (cases "map_of (pendingRequests s) eid")
  case (Some r)
  assume inv: "tracker_inv s"
  show ?thesis using inv_duplicate[OF inv] Some by (simp add: trackRequest_def Let_def)
next
  case None
  assume inv: "tracker_inv s"
  let ?s1 = "if of_nat (length (pendingRequests s)) \<ge> maxPendingRequests s then evict_oldest s else s"
  have i1: "tracker_inv ?s1" by (simp add: inv inv_evict_oldest)
  have f1: "map_of (pendingRequests ?s1) eid = None" by (simp add: None evict_oldest_fresh)
  show ?thesis
    using inv_insert[OF i1 f1] None unfolding trackRequest_def Let_def by simp
qed

lemma inv_step: "tracker_inv s \<Longrightarrow> tracker_inv (tracker_step s e)"
  by (cases e)
     (simp_all add: inv_trackRequest inv_matchAck inv_cancelRequest inv_clear inv_destroy
       inv_timeout_fired inv_cleanupOldRequests inv_run_wrap)

lemma inv_run: "tracker_inv s \<Longrightarrow> tracker_inv (tracker_run s evs)"
  unfolding tracker_run_def by (induction evs arbitrary: s) (simp_all add: inv_step)

lemma inv_new: "tracker_inv (new_tracker d m)"
  by (simp add: tracker_inv_def new_tracker_def pending_futures_def)












lemma trackRequest_fresh:
  assumes "map_of (pendingRequests s) eid = None"
  shows "trackRequest eid etype tmo now s =
     (next_future (after_limit s),
      (after_limit s)\<lparr>pendingRequests := pendingRequests (after_limit s) @
         [(eid, \<lparr>r_eventId = eid, r_eventType = etype, r_timestamp = now,
                 r_resolve = [next_future (after_limit s)],
                 r_reject = [next_future (after_limit s)],
                 r_timeout = next_timer (after_limit s)\<rparr>)],
       timers := timers (after_limit s) @
         [(next_timer (after_limit s),
           \<lparr>t_eventId = eid, t_eventType = etype, t_reject = next_future (after_limit s),
            t_delay = (case tmo of None \<Rightarrow> defaultTimeout s | Some t \<Rightarrow> t)\<rparr>)],
       next_timer := Suc (next_timer (after_limit s)),
       next_future := Suc (next_future (after_limit s))\<rparr>)"
  unfolding trackRequest_def Let_def after_limit_def using assms by simp








lemma step_config:
  "maxPendingRequests (tracker_step s e) = maxPendingRequests s \<and>
   defaultTimeout (tracker_step s e) = defaultTimeout s"
proof (cases e)
  case (Track eid etype tmo now)
  then show ?thesis
    by (auto simp: trackRequest_def Let_def evict_oldest_def delete_request_def settle_def
        clearTimeout_def split: option.splits list.splits)
next
  case (MatchAck eid ack)
  then show ?thesis
    by (auto simp: matchAck_def delete_request_def settle_def clearTimeout_def split: option.splits)
next
  case (Cancel eid)
  then show ?thesis
    by (auto simp: cancelRequest_def delete_request_def settle_def clearTimeout_def
        split: option.splits)
next
  case Clear
  then show ?thesis by (auto simp: clear_drop drop_requests_def)
next
  case Destroy
  then show ?thesis by (auto simp: destroy_def clear_drop drop_requests_def)
next
  case (TimeoutFired tid)
  then show ?thesis
    by (auto simp: timeout_fired_def handleTimeout_def delete_request_def settle_def
        clearTimeout_def Let_def split: option.splits)
next
  case (CleanupTick now)
  then show ?thesis
    by (auto simp: cleanupOldRequests_def Let_def fold_cleanup_entry)
next
  case WrapMicrotask
  then show ?thesis by (auto simp: run_wrap_def split: list.splits option.splits)
qed

lemma run_config:
  "maxPendingRequests (tracker_run s evs) = maxPendingRequests s \<and>
   defaultTimeout (tracker_run s evs) = defaultTimeout s"
  unfolding tracker_run_def by (induction evs arbitrary: s) (simp_all add: step_config)

lemma drop_length:
  "int (length (pendingRequests s)) \<le> m \<Longrightarrow>
   int (length (pendingRequests (drop_requests P g s))) \<le> m"
proof -
  assume a: "int (length (pendingRequests s)) \<le> m"
  have "length (pendingRequests (drop_requests P g s)) \<le> length (pendingRequests s)"
    by (simp add: drop_requests_def)
  with a show ?thesis by linarith
qed

lemma sort_key_hd_min:
  assumes "sort_key f xs = y # ys"
  shows "\<forall>x\<in>set xs. f y \<le> f x"
proof -
  have "sorted (map f (y # ys))" using sorted_sort_key[of f xs] assms by simp
  moreover have "set (y # ys) = set xs" using set_sort[of f xs] assms by simp
  ultimately show ?thesis by auto
qed

lemma filter_key_length:
  assumes "distinct (map fst xs)" "e \<in> set xs"
  shows "Suc (length (filter (\<lambda>x. fst x \<noteq> fst e) xs)) = length xs"
proof -
  have "map_of xs (fst e) = Some (snd e)" using assms by (metis map_of_is_SomeI prod.collapse)
  then have "length (filter (\<lambda>x. fst x = fst e) xs) = 1"
    using filter_key_Some[OF assms(1)] by simp
  moreover have "length xs = length (filter (\<lambda>x. fst x = fst e) xs) +
      length (filter (\<lambda>x. \<not> fst x = fst e) xs)"
    by (rule sum_length_filter_compl[symmetric])
  ultimately show ?thesis by simp
qed

lemma evict_oldest_effect:
  assumes inv: "tracker_inv s"
    and srt: "sort_key (\<lambda>entry. r_timestamp (snd entry)) (pendingRequests s) = oldest # rest"
  shows "pendingRequests (evict_oldest s) = filter (\<lambda>e. fst e \<noteq> fst oldest) (pendingRequests s)"
    and "settled (evict_oldest s) =
           settled s @ map (\<lambda>f. (f, Rejected TrackerLimit)) (r_reject (snd oldest))"
    and "Suc (length (pendingRequests (evict_oldest s))) = length (pendingRequests s)"
proof -
  note dk = tracker_inv_parts(1)[OF inv]
  have oin: "oldest \<in> set (pendingRequests s)" using srt by (rule sort_key_hd_in)
  then have m: "map_of (pendingRequests s) (fst oldest) = Some (snd oldest)"
    using dk by (metis map_of_is_SomeI prod.collapse)
  show 1: "pendingRequests (evict_oldest s) = filter (\<lambda>e. fst e \<noteq> fst oldest) (pendingRequests s)"
    unfolding evict_oldest_drop[OF dk srt] by (simp add: drop_requests_def)
  show "settled (evict_oldest s) =
           settled s @ map (\<lambda>f. (f, Rejected TrackerLimit)) (r_reject (snd oldest))"
    unfolding evict_oldest_drop[OF dk srt]
    using filter_key_Some[OF dk m] by (simp add: drop_requests_def reject_all_def)
  show "Suc (length (pendingRequests (evict_oldest s))) = length (pendingRequests s)"
    unfolding 1 using filter_key_length[OF dk oin] .
qed

lemma whole_le: "(of_int m :: rat) \<le> of_nat n \<longleftrightarrow> m \<le> int n"
  by (metis of_int_le_iff of_int_of_nat_eq)

lemma after_limit_length:
  assumes inv: "tracker_inv s" and mx: "maxPendingRequests s = of_int m" and m: "1 \<le> m"
    and le: "int (length (pendingRequests s)) \<le> m"
  shows "int (length (pendingRequests (after_limit s))) < m"
proof (cases "m \<le> int (length (pendingRequests s))")
  case False
  then show ?thesis by (simp add: after_limit_def mx whole_le)
next
  case True
  then have "pendingRequests s \<noteq> []" using m by auto
  then have "sort_key (\<lambda>entry. r_timestamp (snd entry)) (pendingRequests s) \<noteq> []"
    by (metis length_0_conv length_sort)
  then obtain oldest rest where
    srt: "sort_key (\<lambda>entry. r_timestamp (snd entry)) (pendingRequests s) = oldest # rest"
    by (cases "sort_key (\<lambda>entry. r_timestamp (snd entry)) (pendingRequests s)") auto
  have "Suc (length (pendingRequests (evict_oldest s))) = length (pendingRequests s)"
    using evict_oldest_effect(3)[OF inv srt] .
  then show ?thesis using True le by (simp add: after_limit_def mx whole_le)
qed

lemma update_length:
  "map_of xs k = Some v \<Longrightarrow> length (AList.update k v' xs) = length xs"
  by (induction xs) (auto split: if_splits)

lemma step_length:
  assumes inv: "tracker_inv s" and mx: "maxPendingRequests s = of_int m" and m: "1 \<le> m"
    and le: "int (length (pendingRequests s)) \<le> m"
  shows "int (length (pendingRequests (tracker_step s e))) \<le> m"
proof (cases e)
  case (Track eid etype tmo now)
  show ?thesis
  proof (cases "map_of (pendingRequests s) eid")
    case None
    show ?thesis
      unfolding Track tracker_step.simps trackRequest_fresh[OF None] snd_conv
      using after_limit_length[OF inv mx m le] by simp
  next
    case (Some r)
    show ?thesis
      using Some le Track by (simp add: trackRequest_def Let_def)
  qed
next
  case (MatchAck eid ack)
  then show ?thesis
    by (simp add: matchAck_drop[OF tracker_inv_parts(1)[OF inv]] drop_length[OF le])
next
  case (Cancel eid)
  then show ?thesis
    by (simp add: cancelRequest_drop[OF tracker_inv_parts(1)[OF inv]] drop_length[OF le])
next
  case Clear
  then show ?thesis using le m by (simp add: clear_def)
next
  case Destroy
  then show ?thesis using le m by (simp add: destroy_def clear_def)
next
  case (TimeoutFired tid)
  show ?thesis
  proof (cases "map_of (timers s) tid")
    case None
    then show ?thesis using le TimeoutFired by (simp add: timeout_fired_def)
  next
    case (Some t)
    show ?thesis
      unfolding TimeoutFired tracker_step.simps timeout_fired_drop[OF inv Some]
      by (rule drop_length[OF le])
  qed
next
  case (CleanupTick now)
  then show ?thesis
    using le by (simp add: cleanupOldRequests_drop[OF tracker_inv_parts(1)[OF inv]] drop_length[OF le])
next
  case WrapMicrotask
  have "length (pendingRequests (run_wrap s)) = length (pendingRequests s)"
  proof (cases "wraps s")
    case Nil then show ?thesis by (simp add: run_wrap_def)
  next
    case (Cons x rest)
    obtain tid p where x: "x = (tid, p)" by (cases x)
    show ?thesis
    proof (cases "find (\<lambda>entry. r_timeout (snd entry) = tid) (pendingRequests s)")
      case None
      with Cons x show ?thesis by (simp add: run_wrap_def)
    next
      case (Some e)
      obtain eid r where e: "e = (eid, r)" by (cases e)
      have "map_of (pendingRequests s) eid = Some r"
        using find_entry[OF tracker_inv_parts(1)[OF inv]] Some e by blast
      then show ?thesis using Some e Cons x by (simp add: run_wrap_def update_length)
    qed
  qed
  with le WrapMicrotask show ?thesis by simp
qed

lemma run_length:
  assumes "tracker_inv s" and "maxPendingRequests s = of_int m" and "1 \<le> m"
    and "int (length (pendingRequests s)) \<le> m"
  shows "int (length (pendingRequests (tracker_run s evs))) \<le> m"
  using assms unfolding tracker_run_def
proof (induction evs arbitrary: s)
  case Nil then show ?case by simp
next
  case (Cons e evs)
  have "int (length (pendingRequests (foldl tracker_step (tracker_step s e) evs))) \<le> m"
  proof (rule Cons.IH[OF inv_step[OF Cons.prems(1)]])
    show "maxPendingRequests (tracker_step s e) = of_int m"
      using Cons.prems(2) by (simp add: step_config)
    show "1 \<le> m" by (rule Cons.prems(3))
    show "int (length (pendingRequests (tracker_step s e))) \<le> m"
      using step_length[OF Cons.prems] .
  qed
  then show ?case by simp
qed




text \<open>
  Claim C4, as stated, fails.  With capacity 1 and one pending request \<open>a\<close>, a second
  \<open>trackRequest\<close> for the same id \<open>a\<close> arrives at capacity and evicts nothing.  A
  configured capacity below 1 (here \<open>-1\<close>) is exceeded by the first request, and one that
  is not a whole number (here \<open>1.5\<close>) by the second.
\<close>

theorem capacity_eviction_counterexample:
  "int (length (pendingRequests (tracker_run (new_tracker 30000 1 :: string tracker)
          [Track ''a'' ''voicechat.audio.start'' None 0]))) = 1 \<and>
   map fst (pendingRequests (tracker_run (new_tracker 30000 1 :: string tracker)
          [Track ''a'' ''voicechat.audio.start'' None 0, Track ''a'' ''voicechat.audio.start'' None 5]))
     = [''a''] \<and>
   settled (tracker_run (new_tracker 30000 1 :: string tracker)
          [Track ''a'' ''voicechat.audio.start'' None 0, Track ''a'' ''voicechat.audio.start'' None 5])
     = [] \<and>
   \<not> of_nat (length (pendingRequests (tracker_run (new_tracker 30000 (- 1) :: string tracker)
          [Track ''a'' ''voicechat.audio.start'' None 0]))) \<le> (- 1 :: rat) \<and>
   \<not> of_nat (length (pendingRequests (tracker_run (new_tracker 30000 (3 / 2) :: string tracker)
          [Track ''a'' ''voicechat.audio.start'' None 0,
           Track ''b'' ''voicechat.audio.end'' None 5]))) \<le> (3 / 2 :: rat) \<and>
   settled (tracker_run (new_tracker 30000 (3 / 2) :: string tracker)
          [Track ''a'' ''voicechat.audio.start'' None 0,
           Track ''b'' ''voicechat.audio.end'' None 5]) = []"
  by (simp add: tracker_run_def trackRequest_def new_tracker_def Let_def evict_oldest_def)

text \<open>
  Claim C4, amended.  For a configured capacity that is a whole number of at least 1
  and every sequence of track, match, cancel, clear, destroy, timeout and sweep events
  and microtasks, the number of pending entries never exceeds the capacity.  When \<open>trackRequest\<close> is called at capacity for an
  event id that is not pending, the first entry in timestamp order (one with the
  smallest timestamp) is removed and its promises are rejected with the limit error
  before the new entry is appended, and the tracker is at capacity again afterwards.
\<close>

theorem tracker_capacity:
  assumes cap: "1 \<le> m" and reach: "s = tracker_run (new_tracker d (of_int m)) evs"
  shows "int (length (pendingRequests s)) \<le> m \<and>
     (map_of (pendingRequests s) eid = None \<and> int (length (pendingRequests s)) = m \<longrightarrow>
        (\<exists>oldest rest request.
            sort_key (\<lambda>entry. r_timestamp (snd entry)) (pendingRequests s) = oldest # rest \<and>
            oldest \<in> set (pendingRequests s) \<and>
            (\<forall>e\<in>set (pendingRequests s). r_timestamp (snd oldest) \<le> r_timestamp (snd e)) \<and>
            pendingRequests (evict_oldest s) =
              filter (\<lambda>e. fst e \<noteq> fst oldest) (pendingRequests s) \<and>
            settled (evict_oldest s) =
              settled s @ map (\<lambda>f. (f, Rejected TrackerLimit)) (r_reject (snd oldest)) \<and>
            pendingRequests (snd (trackRequest eid etype tmo now s)) =
              pendingRequests (evict_oldest s) @ [(eid, request)] \<and>
            settled (snd (trackRequest eid etype tmo now s)) = settled (evict_oldest s) \<and>
            int (length (pendingRequests (snd (trackRequest eid etype tmo now s)))) = m))"
proof -
  have inv: "tracker_inv s" unfolding reach by (rule inv_run[OF inv_new])
  have mx: "maxPendingRequests s = of_int m"
    unfolding reach by (simp add: run_config new_tracker_def)
  have le: "int (length (pendingRequests s)) \<le> m"
    unfolding reach using run_length[OF inv_new, of d "of_int m" m evs] cap
    by (simp add: new_tracker_def)
  moreover have "\<exists>oldest rest request.
            sort_key (\<lambda>entry. r_timestamp (snd entry)) (pendingRequests s) = oldest # rest \<and>
            oldest \<in> set (pendingRequests s) \<and>
            (\<forall>e\<in>set (pendingRequests s). r_timestamp (snd oldest) \<le> r_timestamp (snd e)) \<and>
            pendingRequests (evict_oldest s) =
              filter (\<lambda>e. fst e \<noteq> fst oldest) (pendingRequests s) \<and>
            settled (evict_oldest s) =
              settled s @ map (\<lambda>f. (f, Rejected TrackerLimit)) (r_reject (snd oldest)) \<and>
            pendingRequests (snd (trackRequest eid etype tmo now s)) =
              pendingRequests (evict_oldest s) @ [(eid, request)] \<and>
            settled (snd (trackRequest eid etype tmo now s)) = settled (evict_oldest s) \<and>
            int (length (pendingRequests (snd (trackRequest eid etype tmo now s)))) = m"
    if fresh: "map_of (pendingRequests s) eid = None" and full: "int (length (pendingRequests s)) = m"
  proof -
    have "pendingRequests s \<noteq> []" using full cap by auto
    then have "sort_key (\<lambda>entry. r_timestamp (snd entry)) (pendingRequests s) \<noteq> []"
      by (metis length_0_conv length_sort)
    then obtain oldest rest where
      srt: "sort_key (\<lambda>entry. r_timestamp (snd entry)) (pendingRequests s) = oldest # rest"
      by (cases "sort_key (\<lambda>entry. r_timestamp (snd entry)) (pendingRequests s)") auto
    note ev = evict_oldest_effect[OF inv srt]
    have al: "after_limit s = evict_oldest s"
      using full mx by (simp add: after_limit_def whole_le)
    let ?request = "\<lparr>r_eventId = eid, r_eventType = etype, r_timestamp = now,
                 r_resolve = [next_future (after_limit s)],
                 r_reject = [next_future (after_limit s)],
                 r_timeout = next_timer (after_limit s)\<rparr>"
    have p: "pendingRequests (snd (trackRequest eid etype tmo now s)) =
              pendingRequests (evict_oldest s) @ [(eid, ?request)]"
      unfolding trackRequest_fresh[OF fresh] snd_conv by (simp add: al)
    have st: "settled (snd (trackRequest eid etype tmo now s)) = settled (evict_oldest s)"
      unfolding trackRequest_fresh[OF fresh] snd_conv by (simp add: al)
    have ln: "int (length (pendingRequests (snd (trackRequest eid etype tmo now s)))) = m"
      unfolding p using ev(3) full by simp
    show ?thesis
      using srt sort_key_hd_in[OF srt] sort_key_hd_min[OF srt] ev(1,2) p st ln by blast
  qed
  ultimately show ?thesis by blast
qed

theorem tracker_capacity_witness:
  "int (length (pendingRequests (tracker_run (new_tracker 30000 2 :: string tracker)
       [Track ''a'' ''voicechat.audio.start'' None 5, Track ''b'' ''voicechat.audio.end'' None 3]))) = 2 \<and>
   map_of (pendingRequests (tracker_run (new_tracker 30000 2 :: string tracker)
       [Track ''a'' ''voicechat.audio.start'' None 5, Track ''b'' ''voicechat.audio.end'' None 3])) ''c'' = None \<and>
   map fst (pendingRequests (snd (trackRequest ''c'' ''voicechat.audio.start'' None 9
     (tracker_run (new_tracker 30000 2 :: string tracker)
       [Track ''a'' ''voicechat.audio.start'' None 5, Track ''b'' ''voicechat.audio.end'' None 3]))))
     = [''a'', ''c''] \<and>
   settled (snd (trackRequest ''c'' ''voicechat.audio.start'' None 9
     (tracker_run (new_tracker 30000 2 :: string tracker)
       [Track ''a'' ''voicechat.audio.start'' None 5, Track ''b'' ''voicechat.audio.end'' None 3])))
     = [(1, Rejected TrackerLimit)]"
proof -
  let ?s = "tracker_run (new_tracker 30000 2 :: string tracker)
       [Track ''a'' ''voicechat.audio.start'' None 5, Track ''b'' ''voicechat.audio.end'' None 3]"
  have p: "pendingRequests ?s =
     [(''a'', \<lparr>r_eventId = ''a'', r_eventType = ''voicechat.audio.start'', r_timestamp = 5,
               r_resolve = [0], r_reject = [0], r_timeout = 0\<rparr>),
      (''b'', \<lparr>r_eventId = ''b'', r_eventType = ''voicechat.audio.end'', r_timestamp = 3,
               r_resolve = [1], r_reject = [1], r_timeout = 1\<rparr>)]"
    by (simp add: tracker_run_def trackRequest_def new_tracker_def Let_def)
  have st: "settled ?s = []"
    by (simp add: tracker_run_def trackRequest_def new_tracker_def Let_def)
  have full: "int (length (pendingRequests ?s)) = 2" by (simp add: p)
  have fresh: "map_of (pendingRequests ?s) ''c'' = None" by (simp add: p)
  from tracker_capacity[of 2 ?s 30000
        "[Track ''a'' ''voicechat.audio.start'' None 5, Track ''b'' ''voicechat.audio.end'' None 3]"
        "''c''" "''voicechat.audio.start''" None 9] fresh full
  obtain oldest rest request where o:
    "sort_key (\<lambda>entry. r_timestamp (snd entry)) (pendingRequests ?s) = oldest # rest"
    "pendingRequests (evict_oldest ?s) = filter (\<lambda>e. fst e \<noteq> fst oldest) (pendingRequests ?s)"
    "settled (evict_oldest ?s) =
        settled ?s @ map (\<lambda>f. (f, Rejected TrackerLimit)) (r_reject (snd oldest))"
    "pendingRequests (snd (trackRequest ''c'' ''voicechat.audio.start'' None 9 ?s)) =
        pendingRequests (evict_oldest ?s) @ [(''c'', request)]"
    "settled (snd (trackRequest ''c'' ''voicechat.audio.start'' None 9 ?s)) =
        settled (evict_oldest ?s)"
    by auto
  have "oldest = (''b'', \<lparr>r_eventId = ''b'', r_eventType = ''voicechat.audio.end'', r_timestamp = 3,
               r_resolve = [1], r_reject = [1], r_timeout = 1\<rparr>)"
    using o(1) unfolding p by simp
  then show ?thesis
    using o(2,3,4,5) full fresh by (simp add: p st)
qed

text \<open>
  Claim C9 on the code.  A request tracked at time 0 with its own timeout of 150 s, in a
  tracker with the default timeout of 30 s, is rejected and removed by the sweep at
  120 s, although its age does not exceed twice its own timeout: the sweep compares
  every age with twice the default timeout.
\<close>

theorem sweep_ignores_request_timeout:
  "map (\<lambda>x. t_delay (snd x))
     (timers (snd (trackRequest ''e1'' ''voicechat.audio.start'' (Some 150000) 0
        (default_tracker :: string tracker)))) = [150000] \<and>
   \<not> (120000 - 0 > 2 * (150000 :: int)) \<and>
   pendingRequests (tracker_step
      (snd (trackRequest ''e1'' ''voicechat.audio.start'' (Some 150000) 0
        (default_tracker :: string tracker))) (CleanupTick 120000)) = [] \<and>
   settled (tracker_step
      (snd (trackRequest ''e1'' ''voicechat.audio.start'' (Some 150000) 0
        (default_tracker :: string tracker))) (CleanupTick 120000)) = [(0, Rejected RequestCleanup)]"
  by (simp add: trackRequest_def default_tracker_def new_tracker_def Let_def
      cleanupOldRequests_def cleanup_entry_def delete_request_def settle_def clearTimeout_def)

section \<open>Properties of the transport client\<close>

lemma fold_waiters:
  "fold (\<lambda>waiter. if success then waiter_resolve waiter
                         else waiter_reject ConnectionFailed waiter) waiters s =
     s\<lparr>waiter_timers := filter (\<lambda>w. w \<notin> set waiters) (waiter_timers s),
       connectionWaiters := filter (\<lambda>w. w \<notin> set waiters) (connectionWaiters s),
       waiter_log := waiter_log s @
          map (\<lambda>w. (w, if success then WaitResolved else WaitRejected ConnectionFailed)) waiters\<rparr>"
proof (induction waiters arbitrary: s)
  case Nil then show ?case by simp
next
  case (Cons w waiters)
  let ?f = "\<lambda>waiter. if success then waiter_resolve waiter
                         else waiter_reject ConnectionFailed waiter"
  have "fold ?f (w # waiters) s = fold ?f waiters (?f w s)" by simp
  also have "\<dots> = (?f w s)\<lparr>waiter_timers := filter (\<lambda>w. w \<notin> set waiters) (waiter_timers (?f w s)),
       connectionWaiters := filter (\<lambda>w. w \<notin> set waiters) (connectionWaiters (?f w s)),
       waiter_log := waiter_log (?f w s) @
          map (\<lambda>w. (w, if success then WaitResolved else WaitRejected ConnectionFailed)) waiters\<rparr>"
    by (rule Cons.IH)
  also have "\<dots> = s\<lparr>waiter_timers := filter (\<lambda>x. x \<notin> set (w # waiters)) (waiter_timers s),
       connectionWaiters := filter (\<lambda>x. x \<notin> set (w # waiters)) (connectionWaiters s),
       waiter_log := waiter_log s @
          map (\<lambda>w. (w, if success then WaitResolved else WaitRejected ConnectionFailed)) (w # waiters)\<rparr>"
    by (simp add: waiter_resolve_def waiter_reject_def removeAll_filter_not_eq conj_commute
        eq_commute)
  finally show ?case .
qed

lemma resumeConnectionWaiters_eq:
  "resumeConnectionWaiters success s =
     s\<lparr>waiter_timers := filter (\<lambda>w. w \<notin> set (connectionWaiters s)) (waiter_timers s),
       connectionWaiters := [],
       waiter_log := waiter_log s @
          map (\<lambda>w. (w, if success then WaitResolved else WaitRejected ConnectionFailed))
            (connectionWaiters s)\<rparr>"
  unfolding resumeConnectionWaiters_def Let_def fold_waiters by simp

lemma scheduleReconnect_alt:
  "scheduleReconnect cfg s =
     (if reconnectTimer s \<noteq> None then s
      else if \<not> shouldReconnect s then s
      else if currentUrl s = None then s
      else if \<not> online s then s
      else if attempts_exhausted cfg (reconnectAttempts s) then setState Error s
      else
        (let delay = getReconnectDelay cfg (reconnectAttempts s);
             s1 = s\<lparr>reconnectAttempts := Suc (reconnectAttempts s)\<rparr>;
             s2 = setState Reconnecting s1
         in s2\<lparr>reconnectTimer := Some delay,
                scheduled_delays := scheduled_delays s2 @ [delay]\<rparr>))"
  by (simp add: scheduleReconnect_def attempts_exhausted_def)

lemma not_exhausted:
  "\<not> attempts_exhausted cfg (reconnectAttempts s) \<longleftrightarrow> of_nat (reconnectAttempts s) < maxReconnectAttempts cfg"
  by (simp add: attempts_exhausted_def not_le)

lemmas client_defs =
  connect_def disconnect_def send_def waitForConnection_def onopen_def onerror_def onclose_def
  reconnect_timer_fired_def waiter_timeout_fired_def ping_tick_def network_change_def
  handlePingFailure_def scheduleReconnect_alt setState_def startPingTimer_def stopPingTimer_def
  socket_close_def resumeConnectionWaiters_eq waiter_resolve_def Let_def

lemma step_waiter_log:
  "waiter_log (client_step cfg s e) = waiter_log s @ waiter_settlements s e"
  by (cases e) (auto simp: client_defs isConnected_def ws_readyState_def split: option.splits)

lemma step_waiters_kept:
  "w \<in> set (connectionWaiters s) \<Longrightarrow>
     w \<in> set (connectionWaiters (client_step cfg s e)) \<or> w \<in> fst ` set (waiter_settlements s e)"
  by (cases e) (auto simp: client_defs isConnected_def ws_readyState_def image_iff split: option.splits)

lemma step_send_appends:
  "connectionWaiters (client_step cfg s Send) = connectionWaiters s \<or>
   connectionWaiters (client_step cfg s Send) = connectionWaiters s @ [next_waiter s]"
  by (auto simp: client_defs isConnected_def ws_readyState_def split: option.splits)

lemma step_open:
  "opens_socket s e \<Longrightarrow>
     connectionWaiters (client_step cfg s e) = [] \<and>
     reconnectAttempts (client_step cfg s e) = 0 \<and>
     state (client_step cfg s e) = Connected"
  by (cases e) (auto simp: client_defs)

lemma step_schedule:
  "scheduled_delays (client_step cfg s e) = scheduled_delays s \<or>
   (\<not> attempts_exhausted cfg (reconnectAttempts s) \<and>
    scheduled_delays (client_step cfg s e) =
      scheduled_delays s @ [getReconnectDelay cfg (reconnectAttempts s)] \<and>
    reconnectAttempts (client_step cfg s e) = Suc (reconnectAttempts s) \<and>
    reconnectTimer (client_step cfg s e) = Some (getReconnectDelay cfg (reconnectAttempts s)) \<and>
    state (client_step cfg s e) = Reconnecting)"
  by (cases e) (auto simp: client_defs isConnected_def ws_readyState_def split: option.splits)

lemma scheduleReconnect_exhausted:
  "state (scheduleReconnect cfg s) = Error \<and> state s \<noteq> Error \<longrightarrow>
     attempts_exhausted cfg (reconnectAttempts s) \<and>
     reconnectTimer (scheduleReconnect cfg s) = None \<and>
     reconnectAttempts (scheduleReconnect cfg s) = reconnectAttempts s \<and>
     scheduled_delays (scheduleReconnect cfg s) = scheduled_delays s"
  by (auto simp: scheduleReconnect_alt setState_def Let_def split: if_splits)

lemma step_exhausted:
  "attempts_exhausted cfg (reconnectAttempts s) \<Longrightarrow> \<not> opens_socket s e \<Longrightarrow>
     scheduled_delays (client_step cfg s e) = scheduled_delays s \<and>
     reconnectAttempts (client_step cfg s e) = reconnectAttempts s \<and>
     (reconnectTimer (client_step cfg s e) = None \<or>
      reconnectTimer (client_step cfg s e) = reconnectTimer s)"
  by (cases e) (auto simp: client_defs isConnected_def ws_readyState_def split: option.splits)

lemma below_whole: "(of_nat n :: rat) < of_int m \<longleftrightarrow> int n < m"
  by (metis of_int_less_iff of_int_of_nat_eq)

lemma step_attempts:
  "reconnectAttempts (client_step cfg s e) = 0 \<or>
   reconnectAttempts (client_step cfg s e) = reconnectAttempts s \<or>
   (\<not> attempts_exhausted cfg (reconnectAttempts s) \<and>
    reconnectAttempts (client_step cfg s e) = Suc (reconnectAttempts s))"
  by (cases e) (auto simp: client_defs isConnected_def ws_readyState_def split: option.splits)

lemma step_attempts_bound:
  assumes "maxReconnectAttempts cfg = of_int m" and "0 \<le> m"
    and "int (reconnectAttempts s) \<le> m"
  shows "int (reconnectAttempts (client_step cfg s e)) \<le> m"
proof -
  consider "reconnectAttempts (client_step cfg s e) = 0"
    | "reconnectAttempts (client_step cfg s e) = reconnectAttempts s"
    | "\<not> attempts_exhausted cfg (reconnectAttempts s)"
      "reconnectAttempts (client_step cfg s e) = Suc (reconnectAttempts s)"
    using step_attempts[of cfg s e] by auto
  then show ?thesis
  proof cases
    case 1 then show ?thesis using assms(2) by simp
  next
    case 2 then show ?thesis using assms(3) by simp
  next
    case 3 then show ?thesis using assms(1) by (simp add: not_exhausted below_whole)
  qed
qed

lemma run_attempts_bound:
  "maxReconnectAttempts cfg = of_int m \<Longrightarrow> 0 \<le> m \<Longrightarrow> int (reconnectAttempts s) \<le> m \<Longrightarrow>
     int (reconnectAttempts (client_run cfg s evs)) \<le> m"
  unfolding client_run_def
  by (induction evs arbitrary: s) (simp_all add: step_attempts_bound)

lemma run_exhausted:
  "attempts_exhausted cfg (reconnectAttempts s) \<Longrightarrow> list_all (\<lambda>e. \<not> is_open_event e) evs \<Longrightarrow>
     scheduled_delays (client_run cfg s evs) = scheduled_delays s \<and>
     reconnectAttempts (client_run cfg s evs) = reconnectAttempts s \<and>
     (reconnectTimer (client_run cfg s evs) = None \<or>
      reconnectTimer (client_run cfg s evs) = reconnectTimer s)"
  unfolding client_run_def
proof (induction evs arbitrary: s)
  case Nil then show ?case by simp
next
  case (Cons e evs)
  have no: "\<not> opens_socket s e" using Cons.prems(2) by (cases e) auto
  note st = step_exhausted[OF Cons.prems(1) no]
  have "attempts_exhausted cfg (reconnectAttempts (client_step cfg s e))"
    using st Cons.prems(1) by (simp add: attempts_exhausted_def)
  from Cons.IH[OF this] Cons.prems(2) st show ?case by auto
qed

lemmas run_defs =
  client_run_def new_client_def default_config_def accept_url_def client_defs isConnected_def
  ws_readyState_def getReconnectDelay_def attempts_exhausted_def

lemma exhaustion_run:
  "client_run default_config (new_client True) exhaustion_events =
    \<lparr>sockets = [CLOSED, CLOSED, CLOSED, CLOSED, CLOSED, CLOSED, CLOSED],
     ws = None, currentUrl = Some ''wss://voice.example/ws'', state = Error,
     reconnectAttempts = 6, reconnectTimer = None, shouldReconnect = True,
     connectionWaiters = [], waiter_timers = [], next_waiter = 0,
     pingTimer = False, online = True, waiter_log = [],
     scheduled_delays = [2000, 5000, 10000, 10000, 10000, 10000],
     emitted =
       [Connecting, Connected, Disconnected, Reconnecting, Connecting,
        Disconnected, Reconnecting, Connecting, Disconnected, Reconnecting,
        Connecting, Disconnected, Reconnecting, Connecting, Disconnected,
        Reconnecting, Connecting, Disconnected, Reconnecting, Connecting,
        Disconnected, Error]\<rparr>"
  by (simp add: exhaustion_events_def run_defs)

lemma run_append: "client_run cfg s (evs @ evs') = client_run cfg (client_run cfg s evs) evs'"
  by (simp add: client_run_def)

text \<open>
  Claim C8, as stated, fails.  With the default configuration, a connection that opens
  and then fails seven times brings the client into the error state after six scheduled
  reconnects (delays 2 s, 5 s, 10 s, 10 s, 10 s, 10 s): the attempt counter then equals
  the maximum 6, it is not strictly below it.  And from the error state a \<open>send\<close>, without
  any call of \<open>connect\<close>, starts a connection whose opening resets the counter, so that
  the next failure schedules a reconnect again.
\<close>

theorem exhaustion_counterexample:
  "state (client_run default_config (new_client True) exhaustion_events) = Error \<and>
   \<not> of_nat (reconnectAttempts (client_run default_config (new_client True) exhaustion_events))
       < maxReconnectAttempts default_config \<and>
   scheduled_delays (client_run default_config (new_client True) exhaustion_events) =
     [2000, 5000, 10000, 10000, 10000, 10000] \<and>
   scheduled_delays (client_run default_config (new_client True)
       (exhaustion_events @ [Send, WsOpen 7, WsClose 7 1006])) =
     [2000, 5000, 10000, 10000, 10000, 10000, 2000]"
  unfolding run_append exhaustion_run
  by (simp add: run_defs)

text \<open>
  Claim C8, amended.  The delay of a reconnect is 2 s when the attempt counter is 0, 5 s
  when it is 1, and 10 s otherwise (default configuration); the counter is reset to 0
  whenever a socket opens.  An event schedules at most one reconnect, only while the
  counter is strictly below the configured maximum, with the delay for the counter's
  value, and increments the counter.  \<open>scheduleReconnect\<close> enters the error state only when
  the counter is not below the maximum, and arms no timer then.  When the maximum is a
  whole number \<open>m\<close> that is not negative, the counter never exceeds \<open>m\<close>.  While the counter
  is not below the maximum, no reconnect is scheduled and the counter does not change, as
  long as no socket opens.
\<close>

theorem reconnect_policy:
  "getReconnectDelay default_config n = (if n = 0 then 2000 else if n = 1 then 5000 else 10000) \<and>
   (opens_socket s e \<longrightarrow> reconnectAttempts (client_step cfg s e) = 0) \<and>
   (scheduled_delays (client_step cfg s e) = scheduled_delays s \<or>
      (of_nat (reconnectAttempts s) < maxReconnectAttempts cfg \<and>
       scheduled_delays (client_step cfg s e) =
         scheduled_delays s @ [getReconnectDelay cfg (reconnectAttempts s)] \<and>
       reconnectAttempts (client_step cfg s e) = Suc (reconnectAttempts s))) \<and>
   (state (scheduleReconnect cfg s) = Error \<and> state s \<noteq> Error \<longrightarrow>
      maxReconnectAttempts cfg \<le> of_nat (reconnectAttempts s) \<and>
      reconnectTimer (scheduleReconnect cfg s) = None) \<and>
   (maxReconnectAttempts cfg = of_int m \<and> 0 \<le> m \<longrightarrow>
      int (reconnectAttempts (client_run cfg (new_client b) evs0)) \<le> m) \<and>
   (maxReconnectAttempts cfg \<le> of_nat (reconnectAttempts s) \<and>
    list_all (\<lambda>e. \<not> is_open_event e) evs \<longrightarrow>
      scheduled_delays (client_run cfg s evs) = scheduled_delays s \<and>
      reconnectAttempts (client_run cfg s evs) = reconnectAttempts s)"
proof -
  have 1: "getReconnectDelay default_config n =
      (if n = 0 then 2000 else if n = 1 then 5000 else 10000)"
    by (simp add: getReconnectDelay_def default_config_def)
  have 2: "opens_socket s e \<longrightarrow> reconnectAttempts (client_step cfg s e) = 0"
    using step_open by blast
  have 3: "scheduled_delays (client_step cfg s e) = scheduled_delays s \<or>
      (of_nat (reconnectAttempts s) < maxReconnectAttempts cfg \<and>
       scheduled_delays (client_step cfg s e) =
         scheduled_delays s @ [getReconnectDelay cfg (reconnectAttempts s)] \<and>
       reconnectAttempts (client_step cfg s e) = Suc (reconnectAttempts s))"
    using step_schedule[of cfg s e] unfolding not_exhausted by blast
  have 4: "state (scheduleReconnect cfg s) = Error \<and> state s \<noteq> Error \<longrightarrow>
      maxReconnectAttempts cfg \<le> of_nat (reconnectAttempts s) \<and>
      reconnectTimer (scheduleReconnect cfg s) = None"
    using scheduleReconnect_exhausted[of cfg s] unfolding attempts_exhausted_def by blast
  have 5: "maxReconnectAttempts cfg = of_int m \<and> 0 \<le> m \<longrightarrow>
      int (reconnectAttempts (client_run cfg (new_client b) evs0)) \<le> m"
    using run_attempts_bound[of cfg m "new_client b" evs0] by (simp add: new_client_def)
  have 6: "maxReconnectAttempts cfg \<le> of_nat (reconnectAttempts s) \<and>
    list_all (\<lambda>e. \<not> is_open_event e) evs \<longrightarrow>
      scheduled_delays (client_run cfg s evs) = scheduled_delays s \<and>
      reconnectAttempts (client_run cfg s evs) = reconnectAttempts s"
    using run_exhausted[of cfg s evs] unfolding attempts_exhausted_def by blast
  from 1 2 3 4 5 6 show ?thesis by blast
qed

theorem reconnect_policy_witness:
  "opens_socket (client_run default_config (new_client True) (exhaustion_events @ [Send])) (WsOpen 7) \<and>
   reconnectAttempts (client_step default_config
      (client_run default_config (new_client True) (exhaustion_events @ [Send])) (WsOpen 7)) = 0 \<and>
   state (scheduleReconnect default_config
      (client_run default_config (new_client True) (exhaustion_events @ [Send]))) = Error \<and>
   state (client_run default_config (new_client True) (exhaustion_events @ [Send])) \<noteq> Error \<and>
   maxReconnectAttempts default_config \<le>
      of_nat (reconnectAttempts (client_run default_config (new_client True) (exhaustion_events @ [Send]))) \<and>
   maxReconnectAttempts default_config = of_int 6 \<and> (0::int) \<le> 6 \<and>
   int (reconnectAttempts (client_run default_config (new_client True) exhaustion_events)) \<le> 6 \<and>
   list_all (\<lambda>e. \<not> is_open_event e) [NetworkChange False, NetworkChange True, PingTick] \<and>
   scheduled_delays (client_run default_config
      (client_run default_config (new_client True) (exhaustion_events @ [Send]))
      [NetworkChange False, NetworkChange True, PingTick]) =
     [2000, 5000, 10000, 10000, 10000, 10000]"
proof -
  let ?s = "client_run default_config (new_client True) (exhaustion_events @ [Send])"
  have s: "?s =
    \<lparr>sockets = [CLOSED, CLOSED, CLOSED, CLOSED, CLOSED, CLOSED, CLOSED, CONNECTING],
     ws = Some 7, currentUrl = Some ''wss://voice.example/ws'', state = Connecting,
     reconnectAttempts = 6, reconnectTimer = None, shouldReconnect = True,
     connectionWaiters = [0], waiter_timers = [0], next_waiter = 1,
     pingTimer = False, online = True, waiter_log = [],
     scheduled_delays = [2000, 5000, 10000, 10000, 10000, 10000],
     emitted =
       [Connecting, Connected, Disconnected, Reconnecting, Connecting,
        Disconnected, Reconnecting, Connecting, Disconnected, Reconnecting,
        Connecting, Disconnected, Reconnecting, Connecting, Disconnected,
        Reconnecting, Connecting, Disconnected, Reconnecting, Connecting,
        Disconnected, Error, Connecting]\<rparr>"
    unfolding run_append exhaustion_run by (simp add: run_defs)
  have h1: "opens_socket ?s (WsOpen 7)" unfolding s by simp
  have h2: "state (scheduleReconnect default_config ?s) = Error \<and> state ?s \<noteq> Error"
    unfolding s by (simp add: scheduleReconnect_def setState_def default_config_def)
  have h3: "maxReconnectAttempts default_config \<le> of_nat (reconnectAttempts ?s)"
    unfolding s by (simp add: default_config_def)
  have h4: "maxReconnectAttempts default_config = of_int 6 \<and> (0::int) \<le> 6"
    by (simp add: default_config_def)
  have h5: "list_all (\<lambda>e. \<not> is_open_event e) [NetworkChange False, NetworkChange True, PingTick]"
    by simp
  have d: "scheduled_delays ?s = [2000, 5000, 10000, 10000, 10000, 10000]"
    unfolding s by simp
  from reconnect_policy[of 0 ?s "WsOpen 7" default_config 6 True exhaustion_events
      "[NetworkChange False, NetworkChange True, PingTick]"] h1 h2 h3 h4 h5 d
  show ?thesis by simp
qed

text \<open>
  Claim C7, as stated, fails.  A \<open>send\<close> issued while the first connection attempt is
  in progress registers waiter 0; when that socket closes with code 1006 the client
  schedules a reconnect in 2 s and is in state \<open>reconnecting\<close>, and the waiter has been
  rejected with \<open>Connection failed\<close>.
\<close>

theorem transient_close_counterexample:
  "state (client_run default_config (new_client True)
      [Connect ''wss://voice.example/ws'', Send, WsClose 0 1006]) = Reconnecting \<and>
   reconnectTimer (client_run default_config (new_client True)
      [Connect ''wss://voice.example/ws'', Send, WsClose 0 1006]) = Some 2000 \<and>
   connectionWaiters (client_run default_config (new_client True)
      [Connect ''wss://voice.example/ws'', Send]) = [0] \<and>
   waiter_log (client_run default_config (new_client True)
      [Connect ''wss://voice.example/ws'', Send, WsClose 0 1006]) =
     [(0, WaitRejected ConnectionFailed)]"
  by (simp add: run_defs)

text \<open>
  Claim C7, amended.  Every connection waiter is resolved, in insertion order, when a
  socket of the client opens, and the map of waiters is empty afterwards.  The waiters
  are rejected when a socket closes (every close, whether or not a reconnect is
  scheduled after it), on \<open>disconnect\<close>, and each by its own timeout; no other event
  settles a waiter, and a waiter leaves the map only by being settled.  A \<open>send\<close>
  appends at most one waiter at the end of the map.
\<close>

theorem waiter_settlement:
  "waiter_log (client_step cfg s e) = waiter_log s @ waiter_settlements s e \<and>
   (\<forall>w\<in>set (connectionWaiters s).
      w \<in> set (connectionWaiters (client_step cfg s e)) \<or>
      w \<in> fst ` set (waiter_settlements s e)) \<and>
   (connectionWaiters (client_step cfg s Send) = connectionWaiters s \<or>
    connectionWaiters (client_step cfg s Send) = connectionWaiters s @ [next_waiter s]) \<and>
   (opens_socket s e \<longrightarrow> connectionWaiters (client_step cfg s e) = [])"
  using step_waiter_log[of cfg s e] step_waiters_kept[of _ s cfg e] step_send_appends[of cfg s]
    step_open[of s e cfg]
  by blast

theorem waiter_settlement_witness:
  "connectionWaiters (client_run default_config (new_client True)
      [Connect ''wss://voice.example/ws'', Send, Send]) = [0, 1] \<and>
   opens_socket (client_run default_config (new_client True)
      [Connect ''wss://voice.example/ws'', Send, Send]) (WsOpen 0) \<and>
   waiter_log (client_step default_config (client_run default_config (new_client True)
      [Connect ''wss://voice.example/ws'', Send, Send]) (WsOpen 0)) =
     [(0, WaitResolved), (1, WaitResolved)] \<and>
   connectionWaiters (client_step default_config (client_run default_config (new_client True)
      [Connect ''wss://voice.example/ws'', Send, Send]) (WsOpen 0)) = []"
proof -
  let ?s = "client_run default_config (new_client True)
      [Connect ''wss://voice.example/ws'', Send, Send]"
  have s: "?s =
    \<lparr>sockets = [CONNECTING], ws = Some 0, currentUrl = Some ''wss://voice.example/ws'',
     state = Connecting, reconnectAttempts = 0, reconnectTimer = None, shouldReconnect = True,
     connectionWaiters = [0, 1], waiter_timers = [0, 1], next_waiter = 2,
     pingTimer = False, online = True, waiter_log = [], scheduled_delays = [],
     emitted = [Connecting]\<rparr>"
    by (simp add: run_defs)
  have h: "opens_socket ?s (WsOpen 0)" unfolding s by simp
  from waiter_settlement[of default_config ?s "WsOpen 0"] h
  show ?thesis unfolding s by simp
qed

section \<open>Properties of the playback sequencer\<close>

lemma obn_append:
  "old_before_new n (xs @ ys) \<longleftrightarrow>
     old_before_new n xs \<and> old_before_new n ys \<and> (\<forall>x\<in>set xs. \<forall>y\<in>set ys. n \<le> x \<longrightarrow> n \<le> y)"
  unfolding old_before_new_def map_append sorted_append
  by (simp add: le_bool_def)

lemma obn_Nil: "old_before_new n []"
  by (simp add: old_before_new_def)

lemma obn_single: "old_before_new n [x]"
  by (simp add: old_before_new_def)

lemma obn_Cons:
  "old_before_new n (x # xs) \<longleftrightarrow> old_before_new n xs \<and> (\<forall>y\<in>set xs. n \<le> x \<longrightarrow> n \<le> y)"
  using obn_append[of n "[x]" xs] by (simp add: obn_single)

lemma obn_all_new: "\<forall>x\<in>set ext. n \<le> x \<Longrightarrow> old_before_new n ext"
  by (induction ext) (simp_all add: obn_Nil obn_Cons)

lemma obn_all_old: "\<forall>x\<in>set xs. x < n \<Longrightarrow> old_before_new n xs"
  by (induction xs) (simp_all add: obn_Nil obn_Cons)

lemma obn_append_new:
  "old_before_new n xs \<Longrightarrow> \<forall>x\<in>set ext. n \<le> x \<Longrightarrow> old_before_new n (xs @ ext)"
  by (simp add: obn_append obn_all_new)

lemma obn_prefix: "old_before_new n (xs @ ys) \<Longrightarrow> old_before_new n xs"
  by (simp add: obn_append)

lemma obn_drop_mid:
  assumes "old_before_new n (xs @ y # ys)"
  shows "old_before_new n (xs @ ys)"
proof -
  from assms have a: "old_before_new n xs" "old_before_new n (y # ys)"
    "\<forall>x\<in>set xs. \<forall>z\<in>set (y # ys). n \<le> x \<longrightarrow> n \<le> z"
    unfolding obn_append[of n xs "y # ys"] by blast+
  from a(2) have "old_before_new n ys" unfolding obn_Cons by blast
  moreover from a(3) have "\<forall>x\<in>set xs. \<forall>z\<in>set ys. n \<le> x \<longrightarrow> n \<le> z" by simp
  ultimately show ?thesis using a(1) unfolding obn_append[of n xs ys] by blast
qed

text \<open>The loop changes the queue and lets at most one chunk wait; nothing else.\<close>

lemma processLoop_frame:
  "heap (processLoop q s) = heap s \<and>
   next_chunk (processLoop q s) = next_chunk s \<and>
   ctx_running (processLoop q s) = ctx_running s \<and>
   stopped (processLoop q s) = stopped s \<and>
   currentUtteranceId (processLoop q s) = currentUtteranceId s \<and>
   scheduled (processLoop q s) = scheduled s \<and>
   playing (processLoop q s) = playing s \<and>
   activeSources (processLoop q s) = activeSources s"
  by (induction q s rule: processLoop.induct) auto

lemma processLoop_queue: "set (audioQueue (processLoop q s)) \<subseteq> set q"
  by (induction q s rule: processLoop.induct) auto

lemma processLoop_effect:
  "(callbacks (processLoop q s) = callbacks s \<and> ctx_waiters (processLoop q s) = ctx_waiters s) \<or>
   (\<exists>c\<in>set q. ctx_running s \<and> callbacks (processLoop q s) = callbacks s @ [c] \<and>
      ctx_waiters (processLoop q s) = ctx_waiters s) \<or>
   (\<exists>c\<in>set q. \<not> ctx_running s \<and> callbacks (processLoop q s) = callbacks s \<and>
      ctx_waiters (processLoop q s) = ctx_waiters s @ [c])"
  by (induction q s rule: processLoop.induct) auto

lemma sort_queue_set: "set (sort_queue q) = set q"
  by (simp add: sort_queue_def)

lemma playChunk_eq:
  "playChunk v rate uid now s = processQueue (enqueue v rate uid now (adopt rate uid s))"
  by (simp add: playChunk_def processQueue_def Let_def enqueue_def adopt_def)

lemma handler_cases:
  "response_chunk_handler payload now s = s \<or>
   (\<exists>v rate. response_chunk_handler payload now s =
      playChunk v rate (p_utteranceId payload) now s) \<or>
   (\<exists>v rate bs. response_chunk_handler payload now s =
      playChunk v rate (p_utteranceId payload) now (s\<lparr>heap := heap s @ [bs]\<rparr>))"
proof (cases "p_audio payload")
  case (RawUint8Array rawAudio)
  then show ?thesis
    by (cases "v_length rawAudio = 0")
       (simp_all add: response_chunk_handler_def copy_view_def Let_def, blast)
next
  case (RawTypedArray rawAudio)
  then show ?thesis
    by (cases "v_length rawAudio = 0")
       (simp_all add: response_chunk_handler_def copy_view_def Let_def, blast)
next
  case (RawDataView rawAudio)
  then show ?thesis
    by (simp add: response_chunk_handler_def copy_view_def Let_def) blast
next
  case (RawArrayBuffer rawAudio)
  then show ?thesis
    by (simp add: response_chunk_handler_def Let_def) blast
qed (simp_all add: response_chunk_handler_def Let_def)

subsection \<open>Reachable states\<close>

lemma reach_inv_cong:
  assumes "reach_inv s"
    and "next_chunk s' = next_chunk s" and "scheduled s' = scheduled s"
    and "set (audioQueue s') \<subseteq> set (audioQueue s)"
    and "callbacks s' = callbacks s" and "ctx_waiters s' = ctx_waiters s"
    and "ctx_running s' = ctx_running s \<or> \<not> ctx_running s'"
    and "playing s' = playing s" and "activeSources s' = activeSources s"
    and "stopped s' = stopped s"
  shows "reach_inv s'"
  using assms unfolding reach_inv_def by auto

lemma processLoop_reach:
  assumes inv: "reach_inv s" and q: "\<forall>c\<in>set q. c_id c < next_chunk s"
  shows "reach_inv (processLoop q s)"
proof -
  let ?s' = "processLoop q s"
  note fr = processLoop_frame[of q s]
  have i: "ctx_waiters s \<noteq> [] \<longrightarrow> \<not> ctx_running s"
    "\<forall>c\<in>set (callbacks s). c_id c < next_chunk s"
    "\<forall>c\<in>set (ctx_waiters s). c_id c < next_chunk s"
    "\<forall>x\<in>set (scheduled s). c_id (fst (snd x)) < next_chunk s"
    "set (playing s) \<subseteq> set (activeSources s) \<union> set (stopped s)"
    using inv by (auto simp: reach_inv_def)
  have 1: "ctx_waiters ?s' \<noteq> [] \<longrightarrow> \<not> ctx_running ?s'"
    using processLoop_effect[of q s] i(1) fr by auto
  have 2: "\<forall>c\<in>set (audioQueue ?s'). c_id c < next_chunk ?s'"
    using processLoop_queue[of q s] q fr by auto
  have 3: "\<forall>c\<in>set (callbacks ?s'). c_id c < next_chunk ?s'"
    using processLoop_effect[of q s] q i(2) fr by auto
  have 4: "\<forall>c\<in>set (ctx_waiters ?s'). c_id c < next_chunk ?s'"
    using processLoop_effect[of q s] q i(3) fr by auto
  from 1 2 3 4 i(4,5) fr show ?thesis unfolding reach_inv_def by auto
qed

lemma continue_loop_reach: "reach_inv s \<Longrightarrow> reach_inv (continue_loop s)"
  unfolding continue_loop_def by (rule processLoop_reach) (auto simp: reach_inv_def)

lemma stop_reach: "reach_inv s \<Longrightarrow> reach_inv (stop s)"
  by (auto simp: reach_inv_def stop_def)

lemma adopt_reach: "reach_inv s \<Longrightarrow> reach_inv (adopt rate uid s)"
  by (auto simp: reach_inv_def adopt_def stop_def)

lemma enqueue_reach: "reach_inv s \<Longrightarrow> reach_inv (enqueue v rate uid now s)"
  by (auto simp: reach_inv_def enqueue_def sort_queue_set less_Suc_eq)

lemma processQueue_reach: "reach_inv s \<Longrightarrow> reach_inv (processQueue s)"
proof -
  assume inv: "reach_inv s"
  have "reach_inv (s\<lparr>isProcessingQueue := True\<rparr>)"
    by (rule reach_inv_cong[OF inv]) simp_all
  then show ?thesis by (simp add: processQueue_def inv continue_loop_reach)
qed

lemma playChunk_reach: "reach_inv s \<Longrightarrow> reach_inv (playChunk v rate uid now s)"
  unfolding playChunk_eq by (intro processQueue_reach enqueue_reach adopt_reach)

lemma source_ended_reach: "reach_inv s \<Longrightarrow> reach_inv (source_ended sid s)"
proof (cases "sid \<in> set (playing s)")
  case False
  assume "reach_inv s" with False show ?thesis by (simp add: source_ended_def)
next
  case True
  assume a: "reach_inv s"
  have "set (removeAll sid (playing s)) \<subseteq> set (remove1 sid (activeSources s)) \<union> set (stopped s)"
  proof
    fix x assume "x \<in> set (removeAll sid (playing s))"
    then have x: "x \<in> set (playing s)" "x \<noteq> sid" by auto
    then have "x \<in> set (activeSources s) \<union> set (stopped s)"
      using a by (auto simp: reach_inv_def)
    with \<open>x \<noteq> sid\<close> show "x \<in> set (remove1 sid (activeSources s)) \<union> set (stopped s)"
      by (auto simp: in_set_remove1)
  qed
  then show ?thesis using a True by (simp add: source_ended_def reach_inv_def)
qed

lemma run_callback_reach: "reach_inv s \<Longrightarrow> reach_inv (run_callback s)"
  by (auto simp: reach_inv_def run_callback_def start_source_def split: list.splits sum.splits)

lemma run_continuation_reach: "reach_inv s \<Longrightarrow> reach_inv (run_continuation s)"
proof -
  assume inv: "reach_inv s"
  have "reach_inv (s\<lparr>continuations := continuations s - 1\<rparr>)"
    by (rule reach_inv_cong[OF inv]) simp_all
  then show ?thesis by (simp add: run_continuation_def inv continue_loop_reach)
qed

lemma context_resumed_reach: "reach_inv s \<Longrightarrow> reach_inv (context_resumed s)"
  by (auto simp: reach_inv_def context_resumed_def)

lemma resume_failed_reach: "reach_inv s \<Longrightarrow> reach_inv (resume_failed s)"
  by (auto simp: reach_inv_def resume_failed_def)

lemma heap_reach:
  assumes "reach_inv s"
  shows "reach_inv (s\<lparr>heap := hp\<rparr>)"
  by (rule reach_inv_cong[OF assms]) simp_all

lemma handler_reach: "reach_inv s \<Longrightarrow> reach_inv (response_chunk_handler payload now s)"
  using handler_cases[of payload now s] playChunk_reach heap_reach by metis

lemma step_reach: "reach_inv s \<Longrightarrow> reach_inv (playback_step s e)"
proof (cases e)
  case ContextSuspended
  assume "reach_inv s" with ContextSuspended show ?thesis by (auto simp: reach_inv_def)
qed (simp_all add: playChunk_reach stop_reach source_ended_reach context_resumed_reach
      resume_failed_reach heap_reach handler_reach run_callback_reach run_continuation_reach)

lemma run_reach: "reach_inv s \<Longrightarrow> reach_inv (playback_run s evs)"
  unfolding playback_run_def
  by (induction evs arbitrary: s) (simp_all add: step_reach)

lemma new_reach: "reach_inv (new_playback h running)"
  by (simp add: reach_inv_def new_playback_def)

subsection \<open>Preemption\<close>

lemma preempt_inv_cong:
  assumes "preempt_inv n m W s"
    and "next_chunk s' = next_chunk s" and "scheduled s' = scheduled s"
    and "audioQueue s' = audioQueue s \<or> audioQueue s' = []"
    and "callbacks s' = callbacks s" and "ctx_waiters s' = ctx_waiters s"
    and "ctx_running s' = ctx_running s \<or> \<not> ctx_running s'"
  shows "preempt_inv n m W s'"
  using assms by (auto simp: preempt_inv_def pending_chunks_def)

lemma preempt_inv_extend:
  assumes inv: "preempt_inv n m W s"
    and fr: "next_chunk s' = next_chunk s" "scheduled s' = scheduled s"
    and q: "\<forall>c\<in>set (audioQueue s'). n \<le> c_id c"
    and w: "ctx_waiters s' \<noteq> [] \<longrightarrow> \<not> ctx_running s'"
    and p: "pending_chunks m s' = pending_chunks m s \<or>
            (\<exists>c. n \<le> c_id c \<and> pending_chunks m s' = pending_chunks m s @ [c])"
  shows "preempt_inv n m W s'"
proof -
  have i: "n \<le> next_chunk s" "m \<le> length (scheduled s)"
    "old_before_new n (map c_id (pending_chunks m s))"
    "\<forall>c\<in>set (pending_chunks m s). c_id c < n \<longrightarrow> c \<in> W"
    using inv by (auto simp: preempt_inv_def)
  from p show ?thesis
  proof
    assume "pending_chunks m s' = pending_chunks m s"
    with i fr q w show ?thesis by (simp add: preempt_inv_def)
  next
    assume "\<exists>c. n \<le> c_id c \<and> pending_chunks m s' = pending_chunks m s @ [c]"
    then obtain c where c: "n \<le> c_id c" "pending_chunks m s' = pending_chunks m s @ [c]"
      by blast
    have o: "old_before_new n (map c_id (pending_chunks m s'))"
      unfolding c(2) map_append using i(3) c(1) by (intro obn_append_new) simp_all
    have m: "\<forall>x\<in>set (pending_chunks m s'). c_id x < n \<longrightarrow> x \<in> W"
      unfolding c(2) using i(4) c(1) by auto
    from i(1,2) fr q w o m show ?thesis by (simp add: preempt_inv_def)
  qed
qed

lemma processLoop_preempt:
  assumes inv: "preempt_inv n m W s" and q: "\<forall>c\<in>set q. n \<le> c_id c"
  shows "preempt_inv n m W (processLoop q s)"
proof (rule preempt_inv_extend[OF inv])
  let ?s' = "processLoop q s"
  note fr = processLoop_frame[of q s]
  have iw: "ctx_waiters s \<noteq> [] \<longrightarrow> \<not> ctx_running s"
    using inv by (simp add: preempt_inv_def)
  show "next_chunk ?s' = next_chunk s" "scheduled ?s' = scheduled s" using fr by simp_all
  show "\<forall>c\<in>set (audioQueue ?s'). n \<le> c_id c" using processLoop_queue[of q s] q by blast
  show "ctx_waiters ?s' \<noteq> [] \<longrightarrow> \<not> ctx_running ?s'"
    using processLoop_effect[of q s] iw fr by auto
  from processLoop_effect[of q s]
  consider (same) "callbacks ?s' = callbacks s" "ctx_waiters ?s' = ctx_waiters s"
    | (cb) c where "c \<in> set q" "ctx_running s" "callbacks ?s' = callbacks s @ [c]"
        "ctx_waiters ?s' = ctx_waiters s"
    | (wt) c where "c \<in> set q" "callbacks ?s' = callbacks s"
        "ctx_waiters ?s' = ctx_waiters s @ [c]"
    by blast
  then show "pending_chunks m ?s' = pending_chunks m s \<or>
            (\<exists>c. n \<le> c_id c \<and> pending_chunks m ?s' = pending_chunks m s @ [c])"
  proof cases
    case same
    then show ?thesis using fr by (simp add: pending_chunks_def)
  next
    case cb
    then have "ctx_waiters s = []" using iw by blast
    with cb fr have "pending_chunks m ?s' = pending_chunks m s @ [c]"
      by (simp add: pending_chunks_def)
    with cb(1) q show ?thesis by blast
  next
    case wt
    with fr have "pending_chunks m ?s' = pending_chunks m s @ [c]"
      by (simp add: pending_chunks_def)
    with wt(1) q show ?thesis by blast
  qed
qed

lemma continue_loop_preempt: "preempt_inv n m W s \<Longrightarrow> preempt_inv n m W (continue_loop s)"
  unfolding continue_loop_def
  by (rule processLoop_preempt) (auto simp: preempt_inv_def)

lemma stop_preempt:
  assumes "preempt_inv n m W s"
  shows "preempt_inv n m W (stop s)"
  by (rule preempt_inv_cong[OF assms]) (simp_all add: stop_def)

lemma adopt_preempt: "preempt_inv n m W s \<Longrightarrow> preempt_inv n m W (adopt rate uid s)"
proof (cases "currentUtteranceId s \<noteq> Some uid")
  case False
  assume "preempt_inv n m W s" with False show ?thesis by (simp add: adopt_def)
next
  case True
  assume "preempt_inv n m W s"
  then have "preempt_inv n m W ((stop s)\<lparr>currentUtteranceId := Some uid, pb_sampleRate := rate\<rparr>)"
    by (rule preempt_inv_cong[where s = s]) (simp_all add: stop_def)
  with True show ?thesis by (simp add: adopt_def)
qed

lemma enqueue_preempt: "preempt_inv n m W s \<Longrightarrow> preempt_inv n m W (enqueue v rate uid now s)"
  by (auto simp: enqueue_def preempt_inv_def pending_chunks_def sort_queue_set)

lemma processQueue_preempt: "preempt_inv n m W s \<Longrightarrow> preempt_inv n m W (processQueue s)"
proof -
  assume inv: "preempt_inv n m W s"
  have "preempt_inv n m W (s\<lparr>isProcessingQueue := True\<rparr>)"
    by (rule preempt_inv_cong[OF inv]) simp_all
  then show ?thesis by (simp add: processQueue_def inv continue_loop_preempt)
qed

lemma playChunk_preempt: "preempt_inv n m W s \<Longrightarrow> preempt_inv n m W (playChunk v rate uid now s)"
  unfolding playChunk_eq by (intro processQueue_preempt enqueue_preempt adopt_preempt)

lemma source_ended_preempt: "preempt_inv n m W s \<Longrightarrow> preempt_inv n m W (source_ended sid s)"
proof (cases "sid \<in> set (playing s)")
  case False
  assume "preempt_inv n m W s" with False show ?thesis by (simp add: source_ended_def)
next
  case True
  assume "preempt_inv n m W s"
  then have "preempt_inv n m W (s\<lparr>playing := removeAll sid (playing s),
             activeSources := remove1 sid (activeSources s),
             continuations := Suc (continuations s)\<rparr>)"
    by (rule preempt_inv_cong[where s = s]) simp_all
  with True show ?thesis by (simp add: source_ended_def)
qed

lemma run_continuation_preempt:
  "preempt_inv n m W s \<Longrightarrow> preempt_inv n m W (run_continuation s)"
proof -
  assume inv: "preempt_inv n m W s"
  have "preempt_inv n m W (s\<lparr>continuations := continuations s - 1\<rparr>)"
    by (rule preempt_inv_cong[OF inv]) simp_all
  then show ?thesis by (simp add: run_continuation_def inv continue_loop_preempt)
qed

lemma run_callback_preempt:
  assumes inv: "preempt_inv n m W s"
  shows "preempt_inv n m W (run_callback s)"
proof (cases "callbacks s")
  case Nil
  then show ?thesis using inv by (simp add: run_callback_def)
next
  case (Cons c cs)
  have i: "n \<le> next_chunk s" "m \<le> length (scheduled s)"
    "\<forall>c\<in>set (audioQueue s). n \<le> c_id c"
    "ctx_waiters s \<noteq> [] \<longrightarrow> \<not> ctx_running s"
    "old_before_new n (map c_id (pending_chunks m s))"
    "\<forall>c\<in>set (pending_chunks m s). c_id c < n \<longrightarrow> c \<in> W"
    using inv by (auto simp: preempt_inv_def)
  let ?d = "drop m (map (\<lambda>x. fst (snd x)) (scheduled s))"
  have p: "pending_chunks m s = ?d @ c # cs @ ctx_waiters s"
    by (simp add: pending_chunks_def Cons)
  show ?thesis
  proof (cases "decode_chunk (heap s) c")
    case (Inl err)
    let ?s' = "s\<lparr>callbacks := cs, dropped := dropped s @ [(c, err)],
                 continuations := Suc (continuations s)\<rparr>"
    have r: "run_callback s = ?s'" by (simp add: run_callback_def Cons Inl)
    have p': "pending_chunks m ?s' = ?d @ cs @ ctx_waiters s"
      by (simp add: pending_chunks_def)
    have "old_before_new n (map c_id ?d @ c_id c # map c_id (cs @ ctx_waiters s))"
      using i(5) unfolding p by simp
    then have "old_before_new n (map c_id ?d @ map c_id (cs @ ctx_waiters s))"
      by (rule obn_drop_mid)
    then have o: "old_before_new n (map c_id (pending_chunks m ?s'))"
      unfolding p' by simp
    have w: "\<forall>x\<in>set (pending_chunks m ?s'). c_id x < n \<longrightarrow> x \<in> W"
      using i(6) unfolding p p' by auto
    from i(1-4) o w show ?thesis unfolding r by (simp add: preempt_inv_def)
  next
    case (Inr samples)
    let ?s' = "start_source c samples (s\<lparr>callbacks := cs\<rparr>)"
    have r: "run_callback s = ?s'" by (simp add: run_callback_def Cons Inr)
    have p': "pending_chunks m ?s' = pending_chunks m s"
      unfolding p using i(2) by (simp add: pending_chunks_def start_source_def)
    from i p' show ?thesis unfolding r
      by (simp add: preempt_inv_def) (simp add: start_source_def)
  qed
qed

lemma context_resumed_preempt:
  "preempt_inv n m W s \<Longrightarrow> preempt_inv n m W (context_resumed s)"
  by (simp add: preempt_inv_def pending_chunks_def context_resumed_def)

lemma resume_failed_preempt:
  assumes inv: "preempt_inv n m W s"
  shows "preempt_inv n m W (resume_failed s)"
proof (cases "ctx_running s")
  case True
  then show ?thesis using inv by (simp add: resume_failed_def)
next
  case False
  let ?d = "drop m (map (\<lambda>x. fst (snd x)) (scheduled s))"
  have "old_before_new n (map c_id (?d @ callbacks s) @ map c_id (ctx_waiters s))"
    using inv by (simp add: preempt_inv_def pending_chunks_def)
  then have "old_before_new n (map c_id (?d @ callbacks s))" by (rule obn_prefix)
  then show ?thesis
    using inv False by (auto simp: preempt_inv_def pending_chunks_def resume_failed_def)
qed

lemma heap_preempt:
  assumes "preempt_inv n m W s"
  shows "preempt_inv n m W (s\<lparr>heap := hp\<rparr>)"
  by (rule preempt_inv_cong[OF assms]) simp_all

lemma handler_preempt:
  "preempt_inv n m W s \<Longrightarrow> preempt_inv n m W (response_chunk_handler payload now s)"
  using handler_cases[of payload now s] playChunk_preempt heap_preempt by metis

lemma step_preempt: "preempt_inv n m W s \<Longrightarrow> preempt_inv n m W (playback_step s e)"
proof (cases e)
  case ContextSuspended
  assume "preempt_inv n m W s"
  then have "preempt_inv n m W (s\<lparr>ctx_running := False\<rparr>)"
    by (rule preempt_inv_cong[where s = s]) simp_all
  with ContextSuspended show ?thesis by simp
qed (simp_all add: playChunk_preempt stop_preempt source_ended_preempt context_resumed_preempt
      resume_failed_preempt heap_preempt handler_preempt run_callback_preempt
      run_continuation_preempt)

lemma run_preempt: "preempt_inv n m W s \<Longrightarrow> preempt_inv n m W (playback_run s evs)"
  unfolding playback_run_def
  by (induction evs arbitrary: s) (simp_all add: step_preempt)

lemma stop_starts_preempt:
  assumes "reach_inv s"
  shows "preempt_inv (next_chunk s) (length (scheduled s))
           (set (callbacks s) \<union> set (ctx_waiters s)) (stop s)"
proof -
  have "\<forall>x\<in>set (map c_id (callbacks s @ ctx_waiters s)). x < next_chunk s"
    using assms by (auto simp: reach_inv_def)
  then have "old_before_new (next_chunk s) (map c_id (callbacks s @ ctx_waiters s))"
    by (rule obn_all_old)
  then show ?thesis
    using assms
    by (simp add: preempt_inv_def pending_chunks_def stop_def reach_inv_def)
qed

lemma stop_stop: "stop (stop s) = stop s"
  by (simp add: stop_def)

lemma playChunk_switch:
  "currentUtteranceId s \<noteq> Some uid \<Longrightarrow>
     playChunk v rate uid now s = playChunk v rate uid now (stop s)"
  unfolding playChunk_eq by (simp add: adopt_def stop_stop) (simp add: stop_def)

lemma preempt_order:
  "preempt_inv n m W s \<Longrightarrow> old_before_new n (drop m (scheduled_ids s))"
proof -
  assume "preempt_inv n m W s"
  then have "old_before_new n
      (map c_id (drop m (map (\<lambda>x. fst (snd x)) (scheduled s))) @
       map c_id (callbacks s @ ctx_waiters s))"
    by (simp add: preempt_inv_def pending_chunks_def)
  then have "old_before_new n (map c_id (drop m (map (\<lambda>x. fst (snd x)) (scheduled s))))"
    by (rule obn_prefix)
  then show ?thesis by (simp add: scheduled_ids_def drop_map comp_def)
qed

lemma preempt_old:
  assumes "preempt_inv n m W s" and "x \<in> set (drop m (scheduled s))"
    and "c_id (fst (snd x)) < n"
  shows "fst (snd x) \<in> W"
proof -
  have "fst (snd x) \<in> set (drop m (map (\<lambda>x. fst (snd x)) (scheduled s)))"
    using assms(2) by (auto simp: drop_map)
  then have "fst (snd x) \<in> set (pending_chunks m s)" by (simp add: pending_chunks_def)
  with assms(1,3) show ?thesis by (simp add: preempt_inv_def)
qed

lemma playChunk_switch_effect:
  assumes "currentUtteranceId s \<noteq> Some uid"
  shows "stopped (playChunk v rate uid now s) = stopped s @ activeSources s"
    and "currentUtteranceId (playChunk v rate uid now s) = Some uid"
    and "\<forall>c\<in>set (audioQueue (playChunk v rate uid now s)). c_id c = next_chunk s"
proof -
  let ?s2 = "enqueue v rate uid now (adopt rate uid s)"
  have a: "stopped ?s2 = stopped s @ activeSources s" "currentUtteranceId ?s2 = Some uid"
    "set (audioQueue ?s2) =
       {\<lparr>c_id = next_chunk s, audio = v, utteranceId = uid, sampleRate = rate, timestamp = now\<rparr>}"
    using assms by (simp_all add: enqueue_def adopt_def stop_def sort_queue_set)
  have fr: "stopped (processQueue ?s2) = stopped ?s2"
    "currentUtteranceId (processQueue ?s2) = currentUtteranceId ?s2"
    "set (audioQueue (processQueue ?s2)) \<subseteq> set (audioQueue ?s2)"
    using processLoop_frame[of "audioQueue ?s2" "?s2\<lparr>isProcessingQueue := True\<rparr>"]
      processLoop_queue[of "audioQueue ?s2" "?s2\<lparr>isProcessingQueue := True\<rparr>"]
    by (simp_all add: processQueue_def continue_loop_def)
  show "stopped (playChunk v rate uid now s) = stopped s @ activeSources s"
    unfolding playChunk_eq using fr(1) a(1) by simp
  show "currentUtteranceId (playChunk v rate uid now s) = Some uid"
    unfolding playChunk_eq using fr(2) a(2) by simp
  show "\<forall>c\<in>set (audioQueue (playChunk v rate uid now s)). c_id c = next_chunk s"
    unfolding playChunk_eq using fr(3) a(3) by auto
qed

text \<open>
  Claim C2, amended.  Let the sequencer be in a state it can reach, and let \<open>playChunk\<close> be
  called with an utterance id other than the active one.  Then \<open>stop\<close> runs first: every
  active source is stopped (so every source still sounding has been stopped), the queue
  is emptied, and the new id is adopted; after the call the queue holds nothing but the
  new chunk.  And whatever happens afterwards (further calls, microtasks, ends of
  sources, the audio context suspending or resuming, writes to buffers): among the
  chunks scheduled from this call on, none created before the call comes after one
  created by it or later, and one created before the call is a chunk for which
  \<open>playChunkImmediately\<close> had been called before the call and no source started: its
  callback was queued, or it was waiting for the audio context.
\<close>

theorem utterance_preemption:
  assumes reach: "s = playback_run (new_playback h running) evs0"
    and switch: "currentUtteranceId s \<noteq> Some uid"
  shows "stopped (playChunk v rate uid now s) = stopped s @ activeSources s \<and>
     set (playing s) \<subseteq> set (stopped (playChunk v rate uid now s)) \<and>
     currentUtteranceId (playChunk v rate uid now s) = Some uid \<and>
     (\<forall>c\<in>set (audioQueue (playChunk v rate uid now s)). c_id c = next_chunk s) \<and>
     old_before_new (next_chunk s)
       (drop (length (scheduled s))
          (scheduled_ids (playback_run (playChunk v rate uid now s) evs))) \<and>
     (\<forall>x\<in>set (drop (length (scheduled s))
                (scheduled (playback_run (playChunk v rate uid now s) evs))).
        c_id (fst (snd x)) < next_chunk s \<longrightarrow>
        fst (snd x) \<in> set (callbacks s) \<union> set (ctx_waiters s))"
proof -
  have r: "reach_inv s" unfolding reach by (rule run_reach[OF new_reach])
  note eff = playChunk_switch_effect[OF switch, of v rate now]
  let ?W = "set (callbacks s) \<union> set (ctx_waiters s)"
  let ?t = "playback_run (playChunk v rate uid now s) evs"
  have pl: "set (playing s) \<subseteq> set (stopped (playChunk v rate uid now s))"
    unfolding eff(1) using r by (auto simp: reach_inv_def)
  have "preempt_inv (next_chunk s) (length (scheduled s)) ?W (playChunk v rate uid now (stop s))"
    using stop_starts_preempt[OF r] by (rule playChunk_preempt)
  then have "preempt_inv (next_chunk s) (length (scheduled s)) ?W (playChunk v rate uid now s)"
    using playChunk_switch[OF switch] by simp
  then have p: "preempt_inv (next_chunk s) (length (scheduled s)) ?W ?t"
    by (rule run_preempt)
  have o: "old_before_new (next_chunk s) (drop (length (scheduled s)) (scheduled_ids ?t))"
    using p by (rule preempt_order)
  have w: "\<forall>x\<in>set (drop (length (scheduled s)) (scheduled ?t)).
        c_id (fst (snd x)) < next_chunk s \<longrightarrow> fst (snd x) \<in> ?W"
    using preempt_old[OF p] by blast
  from eff pl o w show ?thesis by blast
qed

subsection \<open>The copy of the response-chunk handler\<close>

lemma copy_decode:
  "copy_inv a bs c0 s \<Longrightarrow> decode_chunk (heap s) c0 = decode_bytes (sampleRate c0) bs"
  by (simp add: copy_inv_def decode_chunk_def view_bytes_def)

lemma copy_inv_cong:
  assumes "copy_inv a bs c0 s"
    and "heap s' = heap s" and "next_chunk s' = next_chunk s"
    and "set (audioQueue s') \<subseteq> set (audioQueue s)"
    and "set (callbacks s') \<subseteq> set (callbacks s) \<union> set (ctx_waiters s)"
    and "set (ctx_waiters s') \<subseteq> set (ctx_waiters s)"
    and "scheduled s' = scheduled s"
  shows "copy_inv a bs c0 s'"
  using assms unfolding copy_inv_def by auto

lemma processLoop_copy:
  assumes inv: "copy_inv a bs c0 s" and q: "\<forall>c\<in>set q. c_id c = c_id c0 \<longrightarrow> c = c0"
  shows "copy_inv a bs c0 (processLoop q s)"
proof -
  let ?s' = "processLoop q s"
  note fr = processLoop_frame[of q s]
  have i: "a < length (heap s)" "heap s ! a = bs" "c_id c0 < next_chunk s"
    "audio c0 = \<lparr>v_buffer = a, v_byteOffset = 0, v_length = length bs\<rparr>"
    "\<forall>c\<in>set (callbacks s). c_id c = c_id c0 \<longrightarrow> c = c0"
    "\<forall>c\<in>set (ctx_waiters s). c_id c = c_id c0 \<longrightarrow> c = c0"
    "\<forall>x\<in>set (scheduled s). c_id (fst (snd x)) = c_id c0 \<longrightarrow>
        fst (snd x) = c0 \<and> decode_bytes (sampleRate c0) bs = Inr (snd (snd x))"
    using inv by (auto simp: copy_inv_def)
  have qu: "\<forall>c\<in>set (audioQueue ?s'). c_id c = c_id c0 \<longrightarrow> c = c0"
    using processLoop_queue[of q s] q by blast
  have cb: "\<forall>c\<in>set (callbacks ?s'). c_id c = c_id c0 \<longrightarrow> c = c0"
    using processLoop_effect[of q s] q i(5) by auto
  have wt: "\<forall>c\<in>set (ctx_waiters ?s'). c_id c = c_id c0 \<longrightarrow> c = c0"
    using processLoop_effect[of q s] q i(6) by auto
  from i fr qu cb wt show ?thesis unfolding copy_inv_def by auto
qed

lemma continue_loop_copy: "copy_inv a bs c0 s \<Longrightarrow> copy_inv a bs c0 (continue_loop s)"
  unfolding continue_loop_def by (rule processLoop_copy) (auto simp: copy_inv_def)

lemma stop_copy:
  assumes "copy_inv a bs c0 s"
  shows "copy_inv a bs c0 (stop s)"
  by (rule copy_inv_cong[OF assms]) (simp_all add: stop_def)

lemma adopt_copy: "copy_inv a bs c0 s \<Longrightarrow> copy_inv a bs c0 (adopt rate uid s)"
  by (auto simp: adopt_def stop_def copy_inv_def)

lemma enqueue_copy: "copy_inv a bs c0 s \<Longrightarrow> copy_inv a bs c0 (enqueue v rate uid now s)"
  by (auto simp: copy_inv_def enqueue_def sort_queue_set)

lemma processQueue_copy: "copy_inv a bs c0 s \<Longrightarrow> copy_inv a bs c0 (processQueue s)"
proof -
  assume inv: "copy_inv a bs c0 s"
  have "copy_inv a bs c0 (s\<lparr>isProcessingQueue := True\<rparr>)"
    by (rule copy_inv_cong[OF inv]) simp_all
  then show ?thesis by (simp add: processQueue_def inv continue_loop_copy)
qed

lemma playChunk_copy: "copy_inv a bs c0 s \<Longrightarrow> copy_inv a bs c0 (playChunk v rate uid now s)"
  unfolding playChunk_eq by (intro processQueue_copy enqueue_copy adopt_copy)

lemma source_ended_copy: "copy_inv a bs c0 s \<Longrightarrow> copy_inv a bs c0 (source_ended sid s)"
proof (cases "sid \<in> set (playing s)")
  case False
  assume "copy_inv a bs c0 s" with False show ?thesis by (simp add: source_ended_def)
next
  case True
  assume inv: "copy_inv a bs c0 s"
  have "copy_inv a bs c0 (s\<lparr>playing := removeAll sid (playing s),
             activeSources := remove1 sid (activeSources s),
             continuations := Suc (continuations s)\<rparr>)"
    by (rule copy_inv_cong[OF inv]) simp_all
  with True show ?thesis by (simp add: source_ended_def)
qed

lemma run_continuation_copy:
  "copy_inv a bs c0 s \<Longrightarrow> copy_inv a bs c0 (run_continuation s)"
proof -
  assume inv: "copy_inv a bs c0 s"
  have "copy_inv a bs c0 (s\<lparr>continuations := continuations s - 1\<rparr>)"
    by (rule copy_inv_cong[OF inv]) simp_all
  then show ?thesis by (simp add: run_continuation_def inv continue_loop_copy)
qed

lemma run_callback_copy:
  assumes inv: "copy_inv a bs c0 s"
  shows "copy_inv a bs c0 (run_callback s)"
proof (cases "callbacks s")
  case Nil
  then show ?thesis using inv by (simp add: run_callback_def)
next
  case (Cons c cs)
  show ?thesis
  proof (cases "decode_chunk (heap s) c")
    case (Inl err)
    have "copy_inv a bs c0 (s\<lparr>callbacks := cs, dropped := dropped s @ [(c, err)],
                 continuations := Suc (continuations s)\<rparr>)"
      by (rule copy_inv_cong[OF inv]) (auto simp: Cons)
    then show ?thesis by (simp add: run_callback_def Cons Inl)
  next
    case (Inr samples)
    have c: "c_id c = c_id c0 \<longrightarrow> c = c0 \<and> decode_bytes (sampleRate c0) bs = Inr samples"
    proof
      assume "c_id c = c_id c0"
      then have "c = c0" using inv Cons by (simp add: copy_inv_def)
      with Inr copy_decode[OF inv]
      show "c = c0 \<and> decode_bytes (sampleRate c0) bs = Inr samples" by simp
    qed
    have "copy_inv a bs c0 (start_source c samples (s\<lparr>callbacks := cs\<rparr>))"
      using inv c unfolding copy_inv_def by (auto simp: start_source_def Cons)
    then show ?thesis by (simp add: run_callback_def Cons Inr)
  qed
qed

lemma context_resumed_copy:
  assumes "copy_inv a bs c0 s"
  shows "copy_inv a bs c0 (context_resumed s)"
  by (rule copy_inv_cong[OF assms]) (simp_all add: context_resumed_def)

lemma resume_failed_copy:
  assumes "copy_inv a bs c0 s"
  shows "copy_inv a bs c0 (resume_failed s)"
  by (rule copy_inv_cong[OF assms]) (simp_all add: resume_failed_def)

lemma heap_append_copy:
  "copy_inv a bs c0 s \<Longrightarrow> copy_inv a bs c0 (s\<lparr>heap := heap s @ [xs]\<rparr>)"
  by (simp add: copy_inv_def nth_append)

lemma handler_copy:
  assumes inv: "copy_inv a bs c0 s"
  shows "copy_inv a bs c0 (response_chunk_handler payload now s)"
  using handler_cases[of payload now s] inv playChunk_copy heap_append_copy by metis

lemma store_copy:
  "copy_inv a bs c0 s \<Longrightarrow> a' \<noteq> a \<Longrightarrow>
     copy_inv a bs c0 (s\<lparr>heap := store_byte a' i b (heap s)\<rparr>)"
  by (simp add: copy_inv_def store_byte_def)

lemma step_copy:
  "copy_inv a bs c0 s \<Longrightarrow> \<not> writes_buffer a e \<Longrightarrow> copy_inv a bs c0 (playback_step s e)"
proof (cases e)
  case ContextSuspended
  assume inv: "copy_inv a bs c0 s"
  have "copy_inv a bs c0 (s\<lparr>ctx_running := False\<rparr>)"
    by (rule copy_inv_cong[OF inv]) simp_all
  with ContextSuspended show ?thesis by simp
qed (simp_all add: playChunk_copy stop_copy source_ended_copy context_resumed_copy
      resume_failed_copy store_copy handler_copy run_callback_copy run_continuation_copy)

lemma run_copy:
  "copy_inv a bs c0 s \<Longrightarrow> \<forall>e\<in>set evs. \<not> writes_buffer a e \<Longrightarrow>
     copy_inv a bs c0 (playback_run s evs)"
  unfolding playback_run_def
  by (induction evs arbitrary: s) (simp_all add: step_copy)

text \<open>Handing a fresh copy to \<open>playChunk\<close> establishes the invariant for the new chunk.\<close>

lemma copy_established:
  assumes r: "reach_inv s"
  shows "copy_inv (length (heap s)) bs
     \<lparr>c_id = next_chunk s,
      audio = \<lparr>v_buffer = length (heap s), v_byteOffset = 0, v_length = length bs\<rparr>,
      utteranceId = uid, sampleRate = rate, timestamp = now\<rparr>
     (playChunk \<lparr>v_buffer = length (heap s), v_byteOffset = 0, v_length = length bs\<rparr>
        rate uid now (s\<lparr>heap := heap s @ [bs]\<rparr>))"
proof -
  let ?v = "\<lparr>v_buffer = length (heap s), v_byteOffset = 0, v_length = length bs\<rparr>"
  let ?c0 = "\<lparr>c_id = next_chunk s, audio = ?v,
      utteranceId = uid, sampleRate = rate, timestamp = now\<rparr>"
  let ?s1 = "adopt rate uid (s\<lparr>heap := heap s @ [bs]\<rparr>)"
  have fr: "heap ?s1 = heap s @ [bs]" "next_chunk ?s1 = next_chunk s"
    "set (audioQueue ?s1) \<subseteq> set (audioQueue s)" "ctx_waiters ?s1 = ctx_waiters s"
    "callbacks ?s1 = callbacks s" "scheduled ?s1 = scheduled s"
    by (simp_all add: adopt_def stop_def)
  have old: "\<forall>c\<in>set (audioQueue ?s1). c_id c \<noteq> next_chunk s"
    "\<forall>c\<in>set (callbacks ?s1). c_id c \<noteq> next_chunk s"
    "\<forall>c\<in>set (ctx_waiters ?s1). c_id c \<noteq> next_chunk s"
    "\<forall>x\<in>set (scheduled ?s1). c_id (fst (snd x)) \<noteq> next_chunk s"
  proof -
    have lt: "\<forall>c\<in>set (audioQueue s). c_id c < next_chunk s"
      "\<forall>c\<in>set (callbacks s). c_id c < next_chunk s"
      "\<forall>c\<in>set (ctx_waiters s). c_id c < next_chunk s"
      "\<forall>x\<in>set (scheduled s). c_id (fst (snd x)) < next_chunk s"
      using r unfolding reach_inv_def by auto
    show "\<forall>c\<in>set (audioQueue ?s1). c_id c \<noteq> next_chunk s"
      using lt(1) fr(3) by fastforce
    show "\<forall>c\<in>set (callbacks ?s1). c_id c \<noteq> next_chunk s"
      unfolding fr(5) using lt(2) by fastforce
    show "\<forall>c\<in>set (ctx_waiters ?s1). c_id c \<noteq> next_chunk s"
      unfolding fr(4) using lt(3) by fastforce
    show "\<forall>x\<in>set (scheduled ?s1). c_id (fst (snd x)) \<noteq> next_chunk s"
      unfolding fr(6) using lt(4) by fastforce
  qed
  have "copy_inv (length (heap s)) bs ?c0 (enqueue ?v rate uid now ?s1)"
    unfolding copy_inv_def enqueue_def using old fr(1,2)
    by (auto simp: sort_queue_set)
  then show ?thesis unfolding playChunk_eq by (rule processQueue_copy)
qed

lemma handler_plays_copy:
  assumes "p_audio payload = RawUint8Array rawAudio \<and> v_length rawAudio \<noteq> 0 \<or>
      p_audio payload = RawTypedArray rawAudio \<and> v_length rawAudio \<noteq> 0 \<or>
      p_audio payload = RawDataView rawAudio"
  shows "\<exists>rate. response_chunk_handler payload now s =
     playChunk \<lparr>v_buffer = length (heap s), v_byteOffset = 0,
                v_length = length (view_bytes (heap s) rawAudio)\<rparr>
       rate (p_utteranceId payload) now (s\<lparr>heap := heap s @ [view_bytes (heap s) rawAudio]\<rparr>)"
  using assms by (auto simp: response_chunk_handler_def copy_view_def Let_def)

text \<open>
  Claim C1, amended.  The copy is made by the response-chunk handler.  Let the handler be
  called in a state the sequencer can reach, with a payload whose audio is a \<open>Uint8Array\<close>
  or another typed array that is not empty, or a \<open>DataView\<close>.  Then, whatever events
  follow, stores into the payload's buffer among them, provided none writes into the
  buffer the handler has allocated for the copy: if the chunk created by this call is
  scheduled, its samples are those decoded from the bytes the view showed when the
  handler was called, and its utterance is the payload's.
\<close>

theorem handler_copy_isolation:
  assumes reach: "s = playback_run (new_playback h running) evs0"
    and raw: "p_audio payload = RawUint8Array rawAudio \<and> v_length rawAudio \<noteq> 0 \<or>
      p_audio payload = RawTypedArray rawAudio \<and> v_length rawAudio \<noteq> 0 \<or>
      p_audio payload = RawDataView rawAudio"
    and untouched: "\<forall>e\<in>set evs. \<not> writes_buffer (length (heap s)) e"
    and sched: "(sid, c, samples) \<in>
      set (scheduled (playback_run (response_chunk_handler payload now s) evs))"
    and cid: "c_id c = next_chunk s"
  shows "decode_bytes (sampleRate c) (view_bytes (heap s) rawAudio) = Inr samples \<and>
     utteranceId c = p_utteranceId payload"
proof -
  have r: "reach_inv s" unfolding reach by (rule run_reach[OF new_reach])
  let ?bs = "view_bytes (heap s) rawAudio"
  from handler_plays_copy[OF raw, of now s] obtain rate where
    h: "response_chunk_handler payload now s =
     playChunk \<lparr>v_buffer = length (heap s), v_byteOffset = 0, v_length = length ?bs\<rparr>
       rate (p_utteranceId payload) now (s\<lparr>heap := heap s @ [?bs]\<rparr>)"
    by blast
  let ?c0 = "\<lparr>c_id = next_chunk s,
      audio = \<lparr>v_buffer = length (heap s), v_byteOffset = 0, v_length = length ?bs\<rparr>,
      utteranceId = p_utteranceId payload, sampleRate = rate, timestamp = now\<rparr>"
  have "copy_inv (length (heap s)) ?bs ?c0 (response_chunk_handler payload now s)"
    unfolding h by (rule copy_established[OF r])
  then have "copy_inv (length (heap s)) ?bs ?c0
      (playback_run (response_chunk_handler payload now s) evs)"
    using untouched by (rule run_copy)
  with sched cid have "c = ?c0 \<and> decode_bytes (sampleRate ?c0) ?bs = Inr samples"
    unfolding copy_inv_def by fastforce
  then show ?thesis by auto
qed

subsection \<open>Runs of the sequencer\<close>

lemmas playback_defs =
  playback_run_def new_playback_def playChunk_def processQueue_def continue_loop_def stop_def
  sort_queue_def source_ended_def context_resumed_def resume_failed_def run_callback_def
  run_continuation_def start_source_def decode_chunk_def decode_bytes_def view_bytes_def
  store_byte_def response_chunk_handler_def copy_view_def whole_buffer_def pcm_heap_def
  pcm_view_def playback_normalize_def Let_def less_eq_prod_def less_prod_def

text \<open>
  A run in which playback is stopped and chunks of the same utterance keep arriving: the
  second chunk is playing, and the callback of the third is queued, its loop having been
  continued by the \<open>ended\<close> event of the stopped first source.
\<close>

lemma interrupted_run:
  "playback_run (new_playback pcm_heap True)
     [PlayChunk (pcm_view 0) (Some 16000) ''U1'' 10, RunCallback, Stop,
      PlayChunk (pcm_view 1) (Some 16000) ''U1'' 11, RunCallback,
      PlayChunk (pcm_view 2) (Some 16000) ''U1'' 12, SourceEnded 0, RunContinuation] =
   \<lparr>heap = pcm_heap, audioQueue = [], activeSources = [1], isPlaying = True,
    currentUtteranceId = Some ''U1'', pb_sampleRate = Some 16000,
    isProcessingQueue = True, ctx_running = True, ctx_waiters = [],
    callbacks =
      [\<lparr>c_id = 2, audio = pcm_view 2, utteranceId = ''U1'', sampleRate = Some 16000,
         timestamp = 12\<rparr>],
    continuations = 0, playing = [1], next_source = 2, next_chunk = 3,
    scheduled =
      [(0, \<lparr>c_id = 0, audio = pcm_view 0, utteranceId = ''U1'', sampleRate = Some 16000,
              timestamp = 10\<rparr>, [1 / 32768, 1 / 16384]),
       (1, \<lparr>c_id = 1, audio = pcm_view 1, utteranceId = ''U1'', sampleRate = Some 16000,
              timestamp = 11\<rparr>, [3 / 32768, 1 / 8192])],
    stopped = [0], dropped = []\<rparr>"
  by (simp add: playback_defs)

text \<open>
  Claim C2, as stated, fails.  A chunk of the prior utterance that arrives after the
  switch switches back: for calls with the utterances \<open>U1\<close>, \<open>U2\<close>, \<open>U1\<close>, each followed by
  its microtask, the three chunks are scheduled in this order, the third, of the prior
  utterance \<open>U1\<close>, after the first chunk of \<open>U2\<close> has begun.  And \<open>stop\<close> does not reach a
  chunk for which \<open>playChunkImmediately\<close> has been called and no source started: with a
  suspended audio context, the chunk of \<open>U1\<close> is started after the switch to \<open>U2\<close>, when
  the context resumes, and is not stopped; both sources are active.
\<close>

theorem prior_utterance_counterexample:
  "map (\<lambda>x. utteranceId (fst (snd x)))
     (scheduled (playback_run (new_playback pcm_heap True)
        [PlayChunk (pcm_view 0) (Some 16000) ''U1'' 10, RunCallback,
         PlayChunk (pcm_view 1) (Some 16000) ''U2'' 11, RunCallback,
         PlayChunk (pcm_view 2) (Some 16000) ''U1'' 12, RunCallback])) =
     [''U1'', ''U2'', ''U1''] \<and>
   map (\<lambda>x. utteranceId (fst (snd x)))
     (scheduled (playback_run (new_playback pcm_heap False)
        [PlayChunk (pcm_view 0) (Some 16000) ''U1'' 10,
         PlayChunk (pcm_view 1) (Some 16000) ''U2'' 11,
         ContextResumed, RunCallback, RunCallback])) = [''U1'', ''U2''] \<and>
   stopped (playback_run (new_playback pcm_heap False)
        [PlayChunk (pcm_view 0) (Some 16000) ''U1'' 10,
         PlayChunk (pcm_view 1) (Some 16000) ''U2'' 11,
         ContextResumed, RunCallback, RunCallback]) = [] \<and>
   activeSources (playback_run (new_playback pcm_heap False)
        [PlayChunk (pcm_view 0) (Some 16000) ''U1'' 10,
         PlayChunk (pcm_view 1) (Some 16000) ''U2'' 11,
         ContextResumed, RunCallback, RunCallback]) = [0, 1]"
  by (simp add: playback_defs)

theorem utterance_preemption_witness:
  "currentUtteranceId (playback_run (new_playback pcm_heap True)
     [PlayChunk (pcm_view 0) (Some 16000) ''U1'' 10, RunCallback, Stop,
      PlayChunk (pcm_view 1) (Some 16000) ''U1'' 11, RunCallback,
      PlayChunk (pcm_view 2) (Some 16000) ''U1'' 12, SourceEnded 0, RunContinuation]) =
     Some ''U1'' \<and>
   stopped (playChunk (pcm_view 3) (Some 16000) ''U2'' 13
     (playback_run (new_playback pcm_heap True)
       [PlayChunk (pcm_view 0) (Some 16000) ''U1'' 10, RunCallback, Stop,
        PlayChunk (pcm_view 1) (Some 16000) ''U1'' 11, RunCallback,
        PlayChunk (pcm_view 2) (Some 16000) ''U1'' 12, SourceEnded 0, RunContinuation])) =
     [0, 1] \<and>
   scheduled_ids (playback_run (playChunk (pcm_view 3) (Some 16000) ''U2'' 13
     (playback_run (new_playback pcm_heap True)
       [PlayChunk (pcm_view 0) (Some 16000) ''U1'' 10, RunCallback, Stop,
        PlayChunk (pcm_view 1) (Some 16000) ''U1'' 11, RunCallback,
        PlayChunk (pcm_view 2) (Some 16000) ''U1'' 12, SourceEnded 0, RunContinuation]))
     [RunCallback, RunCallback]) = [0, 1, 2, 3] \<and>
   old_before_new 3 [2, 3] \<and>
   callbacks (playback_run (new_playback pcm_heap True)
     [PlayChunk (pcm_view 0) (Some 16000) ''U1'' 10, RunCallback, Stop,
      PlayChunk (pcm_view 1) (Some 16000) ''U1'' 11, RunCallback,
      PlayChunk (pcm_view 2) (Some 16000) ''U1'' 12, SourceEnded 0, RunContinuation]) =
     [\<lparr>c_id = 2, audio = pcm_view 2, utteranceId = ''U1'', sampleRate = Some 16000,
        timestamp = 12\<rparr>]"
proof -
  let ?s = "playback_run (new_playback pcm_heap True)
     [PlayChunk (pcm_view 0) (Some 16000) ''U1'' 10, RunCallback, Stop,
      PlayChunk (pcm_view 1) (Some 16000) ''U1'' 11, RunCallback,
      PlayChunk (pcm_view 2) (Some 16000) ''U1'' 12, SourceEnded 0, RunContinuation]"
  have sw: "currentUtteranceId ?s \<noteq> Some ''U2''" unfolding interrupted_run by simp
  have ids: "scheduled_ids (playback_run (playChunk (pcm_view 3) (Some 16000) ''U2'' 13 ?s)
     [RunCallback, RunCallback]) = [0, 1, 2, 3]"
    unfolding interrupted_run by (simp add: playback_defs scheduled_ids_def)
  from utterance_preemption[OF refl sw, of "pcm_view 3" "Some 16000" 13
      "[RunCallback, RunCallback]"]
  show ?thesis unfolding ids unfolding interrupted_run by simp
qed

text \<open>
  Claim C1, as stated, fails.  \<open>playChunk\<close> stores the view it is given; the bytes are
  read when the callback of the chunk runs.  Two runs that differ only in a store into
  the handed-over buffer, made after the call and before the chunk is scheduled, schedule
  different samples for it.  The same holds when the response-chunk handler receives an
  \<open>ArrayBuffer\<close>, of which it passes a view.
\<close>

theorem play_chunk_alias_counterexample:
  "map (\<lambda>x. snd (snd x))
     (scheduled (playback_run (new_playback pcm_heap True)
        [PlayChunk (pcm_view 0) (Some 16000) ''U1'' 10, RunCallback,
         PlayChunk (pcm_view 1) (Some 16000) ''U1'' 11,
         SourceEnded 0, RunContinuation, RunCallback])) =
     [[1 / 32768, 1 / 16384], [3 / 32768, 1 / 8192]] \<and>
   map (\<lambda>x. snd (snd x))
     (scheduled (playback_run (new_playback pcm_heap True)
        [PlayChunk (pcm_view 0) (Some 16000) ''U1'' 10, RunCallback,
         PlayChunk (pcm_view 1) (Some 16000) ''U1'' 11,
         StoreByte 1 0 255,
         SourceEnded 0, RunContinuation, RunCallback])) =
     [[1 / 32768, 1 / 16384], [255 / 32768, 1 / 8192]] \<and>
   map (\<lambda>x. snd (snd x))
     (scheduled (playback_run (new_playback pcm_heap True)
        [ResponseChunk \<lparr>p_audio = RawArrayBuffer 0, p_sampleRate = Some 16000,
           p_utteranceId = ''U1''\<rparr> 10, RunCallback,
         ResponseChunk \<lparr>p_audio = RawArrayBuffer 1, p_sampleRate = Some 16000,
           p_utteranceId = ''U1''\<rparr> 11,
         StoreByte 1 0 255,
         SourceEnded 0, RunContinuation, RunCallback])) =
     [[1 / 32768, 1 / 16384], [255 / 32768, 1 / 8192]]"
  by (simp add: playback_defs)

theorem handler_copy_isolation_witness:
  "(1, \<lparr>c_id = 1, audio = \<lparr>v_buffer = 5, v_byteOffset = 0, v_length = 4\<rparr>,
        utteranceId = ''U1'', sampleRate = Some 16000, timestamp = 11\<rparr>,
    [3 / 32768, 1 / 8192]) \<in>
     set (scheduled (playback_run
       (response_chunk_handler
          \<lparr>p_audio = RawUint8Array (pcm_view 1), p_sampleRate = Some 16000,
           p_utteranceId = ''U1''\<rparr> 11
          (playback_run (new_playback pcm_heap True)
             [ResponseChunk \<lparr>p_audio = RawUint8Array (pcm_view 0), p_sampleRate = Some 16000,
                p_utteranceId = ''U1''\<rparr> 10, RunCallback]))
       [StoreByte 1 0 255, SourceEnded 0, RunContinuation, RunCallback])) \<and>
   decode_bytes (Some 16000) (view_bytes pcm_heap (pcm_view 1)) = Inr [3 / 32768, 1 / 8192]"
proof -
  let ?s = "playback_run (new_playback pcm_heap True)
             [ResponseChunk \<lparr>p_audio = RawUint8Array (pcm_view 0), p_sampleRate = Some 16000,
                p_utteranceId = ''U1''\<rparr> 10, RunCallback]"
  let ?p = "\<lparr>p_audio = RawUint8Array (pcm_view 1), p_sampleRate = Some 16000,
           p_utteranceId = ''U1''\<rparr>"
  let ?c = "\<lparr>c_id = 1, audio = \<lparr>v_buffer = 5, v_byteOffset = 0, v_length = 4\<rparr>,
        utteranceId = ''U1'', sampleRate = Some 16000, timestamp = 11\<rparr>"
  have s: "?s =
    \<lparr>heap = pcm_heap @ [[1, 0, 2, 0]], audioQueue = [],
     activeSources = [0], isPlaying = True, currentUtteranceId = Some ''U1'',
     pb_sampleRate = Some 16000, isProcessingQueue = True, ctx_running = True,
     ctx_waiters = [], callbacks = [], continuations = 0, playing = [0], next_source = 1,
     next_chunk = 1,
     scheduled =
       [(0, \<lparr>c_id = 0, audio = \<lparr>v_buffer = 4, v_byteOffset = 0, v_length = 4\<rparr>,
              utteranceId = ''U1'', sampleRate = Some 16000, timestamp = 10\<rparr>,
         [1 / 32768, 1 / 16384])],
     stopped = [], dropped = []\<rparr>"
    by (simp add: playback_defs)
  have raw: "p_audio ?p = RawUint8Array (pcm_view 1) \<and> v_length (pcm_view 1) \<noteq> 0 \<or>
      p_audio ?p = RawTypedArray (pcm_view 1) \<and> v_length (pcm_view 1) \<noteq> 0 \<or>
      p_audio ?p = RawDataView (pcm_view 1)"
    by (simp add: pcm_view_def)
  have untouched: "\<forall>e\<in>set [StoreByte 1 0 255, SourceEnded 0, RunContinuation, RunCallback].
      \<not> writes_buffer (length (heap ?s)) e"
    unfolding s by (simp add: pcm_heap_def)
  have sched: "(1, ?c, [3 / 32768, 1 / 8192]) \<in>
     set (scheduled (playback_run (response_chunk_handler ?p 11 ?s)
       [StoreByte 1 0 255, SourceEnded 0, RunContinuation, RunCallback]))"
    unfolding s by (simp add: playback_defs)
  have cid: "c_id ?c = next_chunk ?s" unfolding s by simp
  have hp: "view_bytes (heap ?s) (pcm_view 1) = view_bytes pcm_heap (pcm_view 1)"
    unfolding s by (simp add: playback_defs)
  from handler_copy_isolation[OF refl raw untouched sched cid] sched
  show ?thesis unfolding hp by simp
qed
end
